theory Spec2Isabelle
  imports Complex_Main "HOL-Library.Word"
begin

unbundle bit_operations_syntax

section \<open>Errors and byte buffers\<close>

text \<open>
  The Python exceptions that the modelled functions can raise. A function that may
  raise returns \<open>py_error + 'a\<close>, with \<open>Inl\<close> for the exception.
\<close>

datatype py_error =
  KeyError | ZeroDivisionError | IndexError | ValueError | OverflowError | StructError

text \<open>
  A message is a Python list of integers; a \<open>bytes\<close> or \<open>bytearray\<close> value is a
  sequence of integers in \<open>range(256)\<close>. Both are integer lists here; the range
  check that \<open>bytearray.extend\<close> performs is written out in \<open>bytearray_extend\<close>.
\<close>

type_synonym bytes = "int list"

definition is_byte :: "int \<Rightarrow> bool" where
  "is_byte b = (0 \<le> b \<and> b < 256)"

definition bytearray_extend :: "bytes \<Rightarrow> int list \<Rightarrow> py_error + bytes" where
  \<comment> \<open>\<open>data.extend(xs)\<close>: ValueError when an element is outside \<open>range(256)\<close>.\<close>
  "bytearray_extend data xs = (if list_all is_byte xs then Inr (data @ xs) else Inl ValueError)"

section \<open>Variable-length quantities (\<open>write_varlen\<close>)\<close>

text \<open>
  \<^verbatim>\<open>song_generator.py\<close>:
  \<^verbatim>\<open>
  def write_varlen(value: int) -> List[int]:
      value = max(0, int(value))
      out = [value & 0x7F]
      value >>= 7
      while value > 0:
          out.insert(0, (value & 0x7F) | 0x80)
          value >>= 7
      return out
  \<close>
  The loop state is \<open>(value, out)\<close>; \<open>out.insert(0, b)\<close> is \<open>b # out\<close>.
\<close>

function varlen_loop :: "int \<Rightarrow> int list \<Rightarrow> int list" where
  "varlen_loop v out =
     (if v > 0 then varlen_loop (drop_bit 7 v) (((v AND 0x7F) OR 0x80) # out) else out)"
  by pat_completeness auto
termination
proof (relation "measure (\<lambda>(v, out). nat v)")
  show "wf (measure (\<lambda>(v::int, out::int list). nat v))"
    by simp
next
  fix v :: int and out :: "int list"
  assume "0 < v"
  then have "v div 128 < v"
    by (simp add: int_div_less_self)
  with \<open>0 < v\<close> show "((drop_bit 7 v, ((v AND 0x7F) OR 0x80) # out), (v, out))
      \<in> measure (\<lambda>(v, out). nat v)"
    by (simp add: drop_bit_eq_div)
qed

declare varlen_loop.simps [simp del]

definition write_varlen :: "int \<Rightarrow> int list" where
  "write_varlen v0 =
     (let v = max 0 v0;
          out = [v AND 0x7F];
          v = drop_bit 7 v
      in varlen_loop v out)"

text \<open>
  \<^verbatim>\<open>app2.py\<close> has its own encoder, without the clamp and with the loop test
  \<^verbatim>\<open>while value:\<close>. On a negative value the shift never reaches zero, so the loop
  does not return; not returning is the value \<open>None\<close>.
\<close>

partial_function (option) app2_varlen_loop :: "int \<Rightarrow> int list \<Rightarrow> int list option" where
  "app2_varlen_loop v out =
     (if v \<noteq> 0 then app2_varlen_loop (drop_bit 7 v) (((v AND 0x7F) OR 0x80) # out)
      else Some out)"

definition app2_write_varlen :: "int \<Rightarrow> int list option" where
  "app2_write_varlen v0 = app2_varlen_loop (drop_bit 7 v0) [v0 AND 0x7F]"

text \<open>
  The repository only writes variable-length quantities. The reader below is the
  inverse that the wire format prescribes: bytes are consumed while the high bit is
  set, seven payload bits each, most significant group first. It returns the value
  and the unread rest, or \<open>None\<close> when the input ends inside a quantity.
\<close>

fun read_varlen_acc :: "int \<Rightarrow> int list \<Rightarrow> (int \<times> int list) option" where
  "read_varlen_acc acc [] = None"
| "read_varlen_acc acc (b # bs) =
     (if b AND 0x80 \<noteq> 0 then read_varlen_acc (push_bit 7 acc OR (b AND 0x7F)) bs
      else Some (push_bit 7 acc OR (b AND 0x7F), bs))"

definition read_varlen :: "int list \<Rightarrow> (int \<times> int list) option" where
  "read_varlen bs = read_varlen_acc 0 bs"

section \<open>Python library operations used by the generator\<close>

text \<open>
  A function that may raise is chained with \<open>sum_bind\<close>: the first exception ends
  the computation, as it does in Python.
\<close>

definition sum_bind :: "py_error + 'a \<Rightarrow> ('a \<Rightarrow> py_error + 'b) \<Rightarrow> py_error + 'b" where
  "sum_bind m f = (case m of Inl e \<Rightarrow> Inl e | Inr x \<Rightarrow> f x)"

definition index :: "'a list \<Rightarrow> int \<Rightarrow> py_error + 'a" where
  \<comment> \<open>\<open>xs[i]\<close>: a negative index counts from the end, IndexError out of range.\<close>
  "index xs i =
     (if 0 \<le> i \<and> i < int (length xs) then Inr (xs ! nat i)
      else if i < 0 \<and> - int (length xs) \<le> i then Inr (xs ! nat (int (length xs) + i))
      else Inl IndexError)"

definition py_mod :: "int \<Rightarrow> int \<Rightarrow> py_error + int" where
  \<comment> \<open>\<open>a % b\<close> on integers: the sign of the result follows the divisor, as HOL's \<open>mod\<close>.\<close>
  "py_mod a b = (if b = 0 then Inl ZeroDivisionError else Inr (a mod b))"

definition py_range :: "int \<Rightarrow> int list" where
  \<comment> \<open>\<open>range(n)\<close>: empty when \<open>n \<le> 0\<close>.\<close>
  "py_range n = map int [0..<nat n]"

text \<open>
  Strings are lists of code points below 256 (\<open>char\<close>); this covers every literal of
  the source. \<open>str.isspace\<close> and \<open>str.lower\<close> are CPython's, restricted to that range.
\<close>

definition isspace :: "char \<Rightarrow> bool" where
  "isspace c = (of_char c \<in> {9::nat, 10, 11, 12, 13, 28, 29, 30, 31, 32, 133, 160})"

definition strip :: "string \<Rightarrow> string" where
  "strip s = rev (dropWhile isspace (rev (dropWhile isspace s)))"

definition lower_char :: "char \<Rightarrow> char" where
  "lower_char c =
     (let n = (of_char c :: nat)
      in if (65 \<le> n \<and> n \<le> 90) \<or> (192 \<le> n \<and> n \<le> 222 \<and> n \<noteq> 215)
         then char_of (n + 32) else c)"

definition lower :: "string \<Rightarrow> string" where
  "lower s = map lower_char s"

function replace :: "string \<Rightarrow> string \<Rightarrow> string \<Rightarrow> string" where
  \<comment> \<open>\<open>s.replace(old, new)\<close> for a non-empty \<open>old\<close>: leftmost matches, not overlapping.\<close>
  "replace old new [] = []"
| "replace old new (c # cs) =
     (if old \<noteq> [] \<and> take (length old) (c # cs) = old
      then new @ replace old new (drop (length old) (c # cs))
      else c # replace old new cs)"
  by pat_completeness auto
termination
  by (relation "measure (\<lambda>(old, new, s). length s)") auto

fun split :: "char \<Rightarrow> string \<Rightarrow> string list" where
  \<comment> \<open>\<open>s.split(sep)\<close> for a separator of one character; empty fields are kept.\<close>
  "split sep [] = [[]]"
| "split sep (c # cs) =
     (if c = sep then [] # split sep cs
      else (case split sep cs of [] \<Rightarrow> [[c]] | w # ws \<Rightarrow> (c # w) # ws))"

definition enumerate :: "'a list \<Rightarrow> (int \<times> 'a) list" where
  "enumerate xs = zip (map int [0..<length xs]) xs"

fun for_each :: "('a \<Rightarrow> 's \<Rightarrow> py_error + 's) \<Rightarrow> 'a list \<Rightarrow> 's \<Rightarrow> py_error + 's" where
  \<comment> \<open>A \<open>for\<close> loop whose body may raise: the state is threaded, the first exception ends it.\<close>
  "for_each body [] s = Inr s"
| "for_each body (x # xs) s =
     (case body x s of Inl e \<Rightarrow> Inl e | Inr s' \<Rightarrow> for_each body xs s')"

definition int_of_float :: "real \<Rightarrow> int" where
  \<comment> \<open>\<open>int(x)\<close> on a float: truncation towards zero.\<close>
  "int_of_float x = (if 0 \<le> x then \<lfloor>x\<rfloor> else \<lceil>x\<rceil>)"

subsection \<open>The random number generator\<close>

text \<open>
  \<open>random.Random\<close> belongs to the Python library, not to the repository, so the
  generator is a parameter: a state type \<open>'r\<close> with the three primitives that the
  library's methods are built from. \<open>rng_randbelow s n\<close> is \<open>_randbelow(n)\<close>, a number
  below \<open>n\<close>; \<open>rng_random s\<close> is the integer numerator \<open>k\<close> of \<open>random() = k / 2^53\<close>. Each
  returns the next state. \<open>randint\<close> and \<open>choice\<close> follow \<^verbatim>\<open>random.py\<close>:
  \<open>randint(a, b) = a + _randbelow(b - a + 1)\<close> and \<open>choice(seq) = seq[_randbelow(len(seq))]\<close>,
  which raises IndexError on an empty sequence. Every \<open>randint\<close> of the source has
  constant bounds \<open>a < b\<close>.
\<close>

record 'r rng_ops =
  rng_seed :: "int \<Rightarrow> 'r"
  rng_randbelow :: "'r \<Rightarrow> nat \<Rightarrow> nat \<times> 'r"
  rng_random :: "'r \<Rightarrow> int \<times> 'r"

definition randint :: "'r rng_ops \<Rightarrow> int \<Rightarrow> int \<Rightarrow> 'r \<Rightarrow> int \<times> 'r" where
  "randint ops a b s = (let (k, s') = rng_randbelow ops s (nat (b - a + 1)) in (a + int k, s'))"

definition choice :: "'r rng_ops \<Rightarrow> 'a list \<Rightarrow> 'r \<Rightarrow> py_error + ('a \<times> 'r)" where
  "choice ops xs s =
     (if xs = [] then Inl IndexError
      else (let (k, s') = rng_randbelow ops s (length xs) in Inr (xs ! k, s')))"

definition random_lt_0_7 :: "'r rng_ops \<Rightarrow> 'r \<Rightarrow> bool \<times> 'r" where
  \<comment> \<open>\<open>rng.random() < 0.7\<close>; the double \<open>0.7\<close> is \<open>6305039478318694 / 2^53\<close>.\<close>
  "random_lt_0_7 ops s = (let (k, s') = rng_random ops s in (k < 6305039478318694, s'))"

definition rng_ok :: "'r rng_ops \<Rightarrow> bool" where
  \<comment> \<open>What the library guarantees of \<open>_randbelow\<close>.\<close>
  "rng_ok ops = (\<forall>s n. 0 < n \<longrightarrow> fst (rng_randbelow ops s n) < n)"

text \<open>
  A generator for concrete runs: its state is a script of draws, taken in order
  (reduced into the requested range), then zeros.
\<close>

definition scripted :: "nat list \<Rightarrow> (nat list) rng_ops" where
  "scripted script =
     \<lparr> rng_seed = (\<lambda>seed. script),
       rng_randbelow = (\<lambda>s n. case s of [] \<Rightarrow> (0, []) | d # ds \<Rightarrow> (d mod n, ds)),
       rng_random = (\<lambda>s. case s of [] \<Rightarrow> (0, []) | d # ds \<Rightarrow> (int d mod 2 ^ 53, ds)) \<rparr>"

section \<open>Configuration and the theory engine\<close>

definition PPQN :: int where
  "PPQN = 480"

text \<open>
  The dataclass \<open>SongParams\<close>. The two float fields are real numbers here, and the
  one float expression of the source, the chord velocity, is computed exactly.
\<close>

record SongParams =
  bpm :: int
  bars :: int
  time_sig_num :: int
  time_sig_den :: int
  key :: string
  mode :: string
  progression :: string
  energy :: real
  swing :: real
  seed :: int
  chord_octave :: int
  melody_octave :: int
  bass_octave :: int

definition default_params :: SongParams where
  "default_params =
     \<lparr> bpm = 124, bars = 8, time_sig_num = 4, time_sig_den = 4, key = ''C'',
       mode = ''major'', progression = ''I-V-vi-IV'', energy = 3 / 4, swing = 1 / 10,
       seed = 42, chord_octave = 3, melody_octave = 5, bass_octave = 2 \<rparr>"

definition NOTE_TO_SEMI :: "string \<rightharpoonup> int" where
  "NOTE_TO_SEMI = map_of
     [(''C'', 0), (''C#'', 1), (''Db'', 1), (''D'', 2), (''D#'', 3), (''Eb'', 3), (''E'', 4),
      (''F'', 5), (''F#'', 6), (''Gb'', 6), (''G'', 7), (''G#'', 8), (''Ab'', 8), (''A'', 9),
      (''A#'', 10), (''Bb'', 10), (''B'', 11)]"

definition midi_note :: "string \<Rightarrow> int \<Rightarrow> py_error + int" where
  "midi_note note_name octave =
     (case NOTE_TO_SEMI note_name of
        None \<Rightarrow> Inl KeyError
      | Some semi \<Rightarrow> Inr (12 * (octave + 1) + semi))"

definition build_scale :: "string \<Rightarrow> string \<Rightarrow> int \<Rightarrow> py_error + int list" where
  "build_scale root_note mode' base_octave =
     sum_bind (midi_note root_note base_octave) (\<lambda>root.
       let intervals = (if lower mode' = ''major'' then [0, 2, 4, 5, 7, 9, 11]
                        else [0, 2, 3, 5, 7, 8, 10])
       in Inr (map (\<lambda>i. root + i) intervals))"

definition roman_mapping :: "string \<rightharpoonup> int" where
  "roman_mapping = map_of
     [(''i'', 0), (''ii'', 1), (''iii'', 2), (''iv'', 3), (''v'', 4), (''vi'', 5), (''vii'', 6),
      (''I'', 0), (''II'', 1), (''III'', 2), (''IV'', 3), (''V'', 4), (''VI'', 5), (''VII'', 6)]"

definition roman_to_degree :: "string \<Rightarrow> int" where
  \<comment> \<open>The literal removed after stripping is the two code points U+00C2, U+00B0.\<close>
  "roman_to_degree roman =
     (case roman_mapping (replace [char_of (0xC2::nat), char_of (0xB0::nat)] [] (strip roman)) of
        None \<Rightarrow> 0
      | Some d \<Rightarrow> d)"

section \<open>The generators\<close>

text \<open>A timed event: an absolute tick and the raw message, a list of integers.\<close>

type_synonym event = "int \<times> int list"

subsection \<open>\<open>make_chords\<close>\<close>

text \<open>
  \<^verbatim>\<open>
  for n in notes:
      stagger = rng.randint(0, 40)
      vel = int(65 + 15 * params.energy + rng.randint(-5, 5))
      events.append((st + stagger, [0x90, int(n), vel]))
      events.append((et - 100, [0x80, int(n), 0]))
  \<close>
  The state of the inner loop is the generator and the event list.
\<close>

definition chord_note ::
  "'r rng_ops \<Rightarrow> SongParams \<Rightarrow> int \<Rightarrow> int \<Rightarrow> int \<Rightarrow> 'r \<times> event list \<Rightarrow> 'r \<times> event list" where
  "chord_note ops params st et n state =
     (let (rng, events) = state;
          (stagger, rng) = randint ops 0 40 rng;
          (jitter, rng) = randint ops (- 5) 5 rng;
          vel = int_of_float (65 + 15 * energy params + real_of_int jitter);
          events = events @ [(st + stagger, [0x90, n, vel])];
          events = events @ [(et - 100, [0x80, n, 0])]
      in (rng, events))"

text \<open>
  The body of \<^verbatim>\<open>for bar in range(params.bars)\<close>. Its state is the generator, the
  events and \<open>chord_degs_per_bar\<close>. \<open>bar % len(tokens)\<close> raises ZeroDivisionError when
  the progression has no token.
\<close>

definition chord_bar ::
  "'r rng_ops \<Rightarrow> SongParams \<Rightarrow> int \<Rightarrow> int list \<Rightarrow> string list \<Rightarrow> int
     \<Rightarrow> 'r \<times> event list \<times> int list list \<Rightarrow> py_error + 'r \<times> event list \<times> int list list" where
  "chord_bar ops params bar_ticks scale tokens bar state =
     (let (rng, events, chord_degs_per_bar) = state in
      sum_bind (py_mod bar (int (length tokens))) (\<lambda>k.
      sum_bind (index tokens k) (\<lambda>tok.
        let root_deg = roman_to_degree tok;
            triad_degs = [root_deg mod 7, (root_deg + 2) mod 7, (root_deg + 4) mod 7];
            chord_degs_per_bar = chord_degs_per_bar @ [triad_degs]
        in
      sum_bind (index scale (triad_degs ! 0)) (\<lambda>n0.
      sum_bind (index scale (triad_degs ! 2)) (\<lambda>n1.
      sum_bind (index scale (triad_degs ! 1)) (\<lambda>n2.
        let notes = [n0, n1, n2 + 12];
            st = bar * bar_ticks;
            et = (bar + 1) * bar_ticks;
            (rng, events) = fold (chord_note ops params st et) notes (rng, events)
        in Inr (rng, events, chord_degs_per_bar)))))))"

definition tokens_of :: "string \<Rightarrow> string list" where
  \<comment> \<open>\<^verbatim>\<open>[t.strip() for t in progression.replace("|", "-").split("-") if t.strip()]\<close>\<close>
  "tokens_of prog =
     map strip (filter (\<lambda>t. strip t \<noteq> []) (split CHR ''-'' (replace ''|'' ''-'' prog)))"

definition make_chords ::
  "'r rng_ops \<Rightarrow> SongParams \<Rightarrow> int \<Rightarrow> py_error + event list \<times> int list list" where
  "make_chords ops params bar_ticks =
     (let rng = rng_seed ops (seed params) in
      sum_bind (build_scale (key params) (mode params) (chord_octave params)) (\<lambda>scale.
        let tokens = tokens_of (progression params) in
      sum_bind (for_each (chord_bar ops params bar_ticks scale tokens) (py_range (bars params))
                  (rng, [], [])) (\<lambda>(rng, events, chord_degs_per_bar).
        Inr (events, chord_degs_per_bar))))"

subsection \<open>\<open>make_melody\<close>\<close>

definition rhythm :: "int list" where
  "rhythm = [1, 0, 0, 1, 0, 1, 0, 0, 1, 0, 0, 1, 0, 0, 0, 0]"

text \<open>
  The body of \<^verbatim>\<open>for i, hit in enumerate(rhythm)\<close>. The generator is drawn from in
  the order of the source: \<open>random()\<close> only when \<open>i % 4 \<noteq> 0\<close> (the \<open>or\<close> is
  short-circuit), the choice of the degree, the shift, the velocity jitter, the
  duration jitter.
\<close>

definition melody_step ::
  "'r rng_ops \<Rightarrow> int list \<Rightarrow> int \<Rightarrow> int list \<Rightarrow> int \<times> int
     \<Rightarrow> 'r \<times> event list \<Rightarrow> py_error + 'r \<times> event list" where
  "melody_step ops lead_scale base_tick chord_tones ih state =
     (let (i, hit) = ih; (rng, events) = state in
      if hit = 0 then Inr (rng, events)
      else
        let (on_chord, rng) = (if i mod 4 = 0 then (True, rng) else random_lt_0_7 ops rng) in
        sum_bind (if on_chord then choice ops chord_tones rng
                  else choice ops (py_range 7) rng) (\<lambda>(deg, rng).
        sum_bind (index lead_scale deg) (\<lambda>note.
          let (shift, rng) = randint ops (- 20) 20 rng;
              st = base_tick + i * (PPQN div 4) + shift;
              vel = (if i = 0 then 100 else if i mod 4 = 0 then 85 else 70);
              (jitter, rng) = randint ops (- 10) 10 rng;
              vel = vel + jitter;
              (dj, rng) = randint ops (- 50) 50 rng;
              duration = PPQN div 4 + dj;
              events = events @ [(st, [0x91, note, vel])];
              events = events @ [(st + duration, [0x81, note, 0])]
          in Inr (rng, events))))"

definition melody_bar ::
  "'r rng_ops \<Rightarrow> int list \<Rightarrow> int list list \<Rightarrow> int \<Rightarrow> int
     \<Rightarrow> 'r \<times> event list \<Rightarrow> py_error + 'r \<times> event list" where
  "melody_bar ops lead_scale chord_degs_per_bar bar_ticks bar state =
     (let base_tick = bar * bar_ticks in
      sum_bind (index chord_degs_per_bar bar) (\<lambda>chord_tones.
        for_each (melody_step ops lead_scale base_tick chord_tones) (enumerate rhythm) state))"

definition make_melody ::
  "'r rng_ops \<Rightarrow> SongParams \<Rightarrow> int list list \<Rightarrow> int \<Rightarrow> py_error + event list" where
  "make_melody ops params chord_degs_per_bar bar_ticks =
     (let rng = rng_seed ops (seed params + 123) in
      sum_bind (build_scale (key params) (mode params) (melody_octave params)) (\<lambda>lead_scale.
      sum_bind (for_each (melody_bar ops lead_scale chord_degs_per_bar bar_ticks)
                  (py_range (bars params)) (rng, [])) (\<lambda>(rng, events).
        Inr events)))"

subsection \<open>\<open>make_drums\<close>\<close>

definition drum_step :: "'r rng_ops \<Rightarrow> int \<Rightarrow> int \<Rightarrow> 'r \<times> event list \<Rightarrow> 'r \<times> event list" where
  "drum_step ops bs i state =
     (let (rng, dr) = state;
          t = bs + i * (PPQN div 4);
          dr = (if i \<in> set [0, 8]
                then dr @ [(t, [0x99, 36, 110])] @ [(t + 100, [0x89, 36, 0])] else dr);
          dr = (if i \<in> set [4, 12]
                then dr @ [(t, [0x99, 38, 100])] @ [(t + 100, [0x89, 38, 0])] else dr)
      in if i mod 2 = 0
         then (let vel = (if i mod 4 = 0 then 90 else 65);
                   (jitter, rng) = randint ops (- 5) 5 rng
               in (rng, dr @ [(t, [0x99, 42, vel + jitter])] @ [(t + 60, [0x89, 42, 0])]))
         else (rng, dr))"

definition drum_bar :: "'r rng_ops \<Rightarrow> int \<Rightarrow> int \<Rightarrow> 'r \<times> event list \<Rightarrow> 'r \<times> event list" where
  "drum_bar ops bar_ticks bar state =
     (let bs = bar * bar_ticks in fold (drum_step ops bs) (py_range 16) state)"

definition make_drums :: "'r rng_ops \<Rightarrow> SongParams \<Rightarrow> int \<Rightarrow> event list" where
  "make_drums ops params bar_ticks =
     (let rng = rng_seed ops (seed params + 999)
      in snd (fold (drum_bar ops bar_ticks) (py_range (bars params)) (rng, [])))"

section \<open>The event codec and the file assembler\<close>

text \<open>
  \<^verbatim>\<open>
  def build_track(events):
      events = sorted(events, key=lambda x: x[0])
      data = bytearray()
      last = 0
      for tick, msg in events:
          delta = tick - last
          last = tick
          data.extend(write_varlen(delta))
          data.extend(msg)
      data.extend(write_varlen(0))
      data.extend([0xFF, 0x2F, 0x00])
      return bytes(data)
  \<close>
  \<open>sorted\<close> is stable, as \<open>sort_key\<close> is. The loop state is \<open>(last, data)\<close>.
\<close>

definition track_step :: "event \<Rightarrow> int \<times> bytes \<Rightarrow> py_error + int \<times> bytes" where
  "track_step ev state =
     (let (tick, msg) = ev; (last, data) = state;
          delta = tick - last;
          last = tick
      in sum_bind (bytearray_extend data (write_varlen delta)) (\<lambda>data.
         sum_bind (bytearray_extend data msg) (\<lambda>data.
           Inr (last, data))))"

definition build_track :: "event list \<Rightarrow> py_error + bytes" where
  "build_track events0 =
     (let events = sort_key fst events0 in
      sum_bind (for_each track_step events (0, [])) (\<lambda>(last, data).
      sum_bind (bytearray_extend data (write_varlen 0)) (\<lambda>data.
        bytearray_extend data [0xFF, 0x2F, 0x00])))"

text \<open>
  \<open>int(60_000_000 / bpm)\<close>: the true quotient of two integers, correctly rounded to a
  double, then truncated towards zero. With a numerator below \<open>2^53\<close> the rounding
  never reaches the next integer, so the result is the integer quotient truncated
  towards zero.
\<close>

definition tempo_of :: "int \<Rightarrow> py_error + int" where
  "tempo_of b =
     (if b = 0 then Inl ZeroDivisionError else Inr (sgn b * (60000000 div \<bar>b\<bar>)))"

definition to_bytes3 :: "int \<Rightarrow> py_error + bytes" where
  \<comment> \<open>\<open>n.to_bytes(3, "big")\<close>\<close>
  "to_bytes3 n =
     (if n < 0 \<or> 2 ^ 24 \<le> n then Inl OverflowError
      else Inr [n div 65536 mod 256, n div 256 mod 256, n mod 256])"

definition pack_H :: "int \<Rightarrow> py_error + bytes" where
  \<comment> \<open>\<open>struct.pack(">H", n)\<close>\<close>
  "pack_H n =
     (if n < 0 \<or> 2 ^ 16 \<le> n then Inl StructError else Inr [n div 256 mod 256, n mod 256])"

definition pack_I :: "int \<Rightarrow> py_error + bytes" where
  \<comment> \<open>\<open>struct.pack(">I", n)\<close>\<close>
  "pack_I n =
     (if n < 0 \<or> 2 ^ 32 \<le> n then Inl StructError
      else Inr [n div 16777216 mod 256, n div 65536 mod 256, n div 256 mod 256, n mod 256])"

definition MThd :: bytes where
  "MThd = [0x4D, 0x54, 0x68, 0x64]"

definition MTrk :: bytes where
  "MTrk = [0x4D, 0x54, 0x72, 0x6B]"

definition chunk :: "bytes \<Rightarrow> py_error + bytes" where
  \<comment> \<open>\<^verbatim>\<open>b"MTrk" + struct.pack(">I", len(t)) + t\<close>\<close>
  "chunk t = sum_bind (pack_I (int (length t))) (\<lambda>n. Inr (MTrk @ n @ t))"

fun chunks_of :: "bytes list \<Rightarrow> py_error + bytes list" where
  "chunks_of [] = Inr []"
| "chunks_of (t # ts) =
     sum_bind (chunk t) (\<lambda>c. sum_bind (chunks_of ts) (\<lambda>cs. Inr (c # cs)))"

definition generate_song_bytes :: "'r rng_ops \<Rightarrow> SongParams \<Rightarrow> py_error + bytes" where
  "generate_song_bytes ops params =
     (let bar_ticks = time_sig_num params * PPQN in
      sum_bind (tempo_of (bpm params)) (\<lambda>tempo.
      sum_bind (to_bytes3 tempo) (\<lambda>tempo_bytes.
        let t0_events = [(0, [0xFF, 0x51, 0x03] @ tempo_bytes)] in
      sum_bind (make_chords ops params bar_ticks) (\<lambda>(chord_ev, chord_degs).
      sum_bind (make_melody ops params chord_degs bar_ticks) (\<lambda>melody_ev.
        let drum_ev = make_drums ops params bar_ticks in
      sum_bind (build_track t0_events) (\<lambda>track0.
      sum_bind (build_track chord_ev) (\<lambda>track1.
      sum_bind (build_track melody_ev) (\<lambda>track2.
      sum_bind (build_track drum_ev) (\<lambda>track3.
        let tracks = [track0, track1, track2, track3] in
      sum_bind (pack_I 6) (\<lambda>h1.
      sum_bind (pack_H 1) (\<lambda>h2.
      sum_bind (pack_H (int (length tracks))) (\<lambda>h3.
      sum_bind (pack_H PPQN) (\<lambda>h4.
        let header = MThd @ h1 @ h2 @ h3 @ h4 in
      sum_bind (chunks_of tracks) (\<lambda>chunks.
        Inr (header @ concat chunks)))))))))))))))"

section \<open>Reading a track back\<close>

text \<open>
  The repository has no reader. To state what a serialized track holds, the bytes are
  read back as the wire format prescribes: a delta time, then the message. The
  lengths of the messages are given, since a message is opaque to the codec.
  \<open>read_deltas\<close> returns the delta times in order, and \<open>running_sum\<close> turns them
  into absolute ticks, starting from a given tick.
\<close>

fun read_deltas :: "nat list \<Rightarrow> bytes \<Rightarrow> int list option" where
  "read_deltas [] bs = Some []"
| "read_deltas (n # ns) bs =
     (case read_varlen bs of
        None \<Rightarrow> None
      | Some (d, rest) \<Rightarrow>
          (case read_deltas ns (drop n rest) of None \<Rightarrow> None | Some ds \<Rightarrow> Some (d # ds)))"

fun running_sum :: "int \<Rightarrow> int list \<Rightarrow> int list" where
  "running_sum t0 [] = []"
| "running_sum t0 (d # ds) = (t0 + d) # running_sum (t0 + d) ds"

text \<open>
  The bytes that the loop of \<open>build_track\<close> appends for a list of events already in
  order, as one concatenation. Used to state lemmas about the loop.
\<close>

fun track_body :: "int \<Rightarrow> event list \<Rightarrow> bytes" where
  "track_body t0 [] = []"
| "track_body t0 ((tick, msg) # es) = write_varlen (tick - t0) @ msg @ track_body tick es"

definition msgs_ok :: "event list \<Rightarrow> bool" where
  "msgs_ok es = list_all (\<lambda>e. list_all is_byte (snd e)) es"

section \<open>Notions used to state the claims\<close>

text \<open>
  A note event is in range when its message has three bytes, status, pitch and
  velocity, with pitch and velocity in \<open>[0, 127]\<close>.
\<close>

definition note_in_range :: "event \<Rightarrow> bool" where
  "note_in_range e =
     (case snd e of
        [status, pitch, vel] \<Rightarrow> 0 \<le> pitch \<and> pitch \<le> 127 \<and> 0 \<le> vel \<and> vel \<le> 127
      | _ \<Rightarrow> False)"

text \<open>
  The chord of a bar in the words of the specification: the token is taken
  cyclically (index \<open>bar mod length\<close>), the triad is \<open>root, (root + 2) mod 7,
  (root + 4) mod 7\<close>, and the open voicing sounds the root, the fifth, and the third
  raised by one octave. \<open>make_chords\<close> is compared with these.
\<close>

definition spec_triad :: "string list \<Rightarrow> nat \<Rightarrow> int list" where
  "spec_triad tokens b =
     (let root = roman_to_degree (tokens ! (b mod length tokens))
      in [root, (root + 2) mod 7, (root + 4) mod 7])"

definition spec_voicing :: "int list \<Rightarrow> int list \<Rightarrow> int list" where
  "spec_voicing scale triad =
     [scale ! nat (triad ! 0), scale ! nat (triad ! 2), scale ! nat (triad ! 1) + 12]"

definition note_pairs :: "int list \<Rightarrow> (int \<times> int) list" where
  \<comment> \<open>Status and pitch of a note-on followed by its note-off, for each pitch.\<close>
  "note_pairs notes = concat (map (\<lambda>n. [(0x90, n), (0x80, n)]) notes)"

text \<open>
  Each call of a generator function builds its own \<open>random.Random\<close> object. Two
  such objects behave alike when some relation \<open>R\<close> between their states holds after
  seeding with the same seed and is kept by every draw, the two draws returning the
  same number. The generator objects of two calls are related in this way.
\<close>

definition rng_sim :: "('r \<Rightarrow> 'q \<Rightarrow> bool) \<Rightarrow> 'r rng_ops \<Rightarrow> 'q rng_ops \<Rightarrow> bool" where
  "rng_sim R ops1 ops2 =
     ((\<forall>sd. R (rng_seed ops1 sd) (rng_seed ops2 sd))
      \<and> (\<forall>s1 s2 n. R s1 s2 \<longrightarrow>
            fst (rng_randbelow ops1 s1 n) = fst (rng_randbelow ops2 s2 n)
            \<and> R (snd (rng_randbelow ops1 s1 n)) (snd (rng_randbelow ops2 s2 n)))
      \<and> (\<forall>s1 s2. R s1 s2 \<longrightarrow>
            fst (rng_random ops1 s1) = fst (rng_random ops2 s2)
            \<and> R (snd (rng_random ops1 s1)) (snd (rng_random ops2 s2))))"

text \<open>
  A second generator for concrete runs, with another state: the position in the
  script. It draws what \<open>scripted\<close> draws.
\<close>

definition replayed :: "nat list \<Rightarrow> nat rng_ops" where
  "replayed script =
     \<lparr> rng_seed = (\<lambda>sd. 0),
       rng_randbelow = (\<lambda>i n. (if i < length script then script ! i mod n else 0, Suc i)),
       rng_random = (\<lambda>i. (if i < length script then int (script ! i) mod 2 ^ 53 else 0, Suc i)) \<rparr>"

section \<open>Lemmas about the encoder\<close>

subsection \<open>Bit operations as arithmetic\<close>

lemma and_7F: "(v::int) AND 0x7F = v mod 128"
proof -
  have "(0x7F::int) = mask 7"
    by (simp add: mask_eq_exp_minus_1)
  then show ?thesis
    by (simp only: flip: take_bit_eq_mask) (simp add: take_bit_eq_mod)
qed

lemma shr_7: "drop_bit 7 (v::int) = v div 128"
  by (simp add: drop_bit_eq_div)

lemma bit_0x80: "bit (0x80::int) n \<longleftrightarrow> n = 7"
proof -
  have "(0x80::int) = 2 ^ 7"
    by simp
  then show ?thesis
    by (auto simp only: bit_exp_iff possible_bit_int)
qed

lemma or_0x80:
  assumes "0 \<le> (x::int)" "x < 128"
  shows "x OR 0x80 = x + 128"
proof -
  have x: "x = take_bit 7 x"
    using assms by (simp add: take_bit_eq_mod)
  have "x + 0x80 = x OR 0x80"
  proof (rule disjunctive_add)
    fix n
    have "\<not> bit (take_bit 7 x) 7"
      by (auto simp only: bit_take_bit_iff)
    then show "\<not> bit x n \<or> \<not> bit (0x80::int) n"
      using x bit_0x80 by metis
  qed
  then show ?thesis
    by simp
qed

lemma and_0x80_zero_iff:
  assumes "0 \<le> (b::int)" "b < 256"
  shows "b AND 0x80 = 0 \<longleftrightarrow> b < 128"
proof -
  have "b AND 0x80 = 0 \<longleftrightarrow> \<not> bit b 7"
  proof
    assume z: "b AND 0x80 = 0"
    have "bit (b AND 0x80) 7 = (bit b 7 \<and> bit (0x80::int) 7)"
      by (simp only: bit_and_iff)
    with z show "\<not> bit b 7"
      by (simp add: bit_0x80)
  next
    assume nb: "\<not> bit b 7"
    have "\<And>n. \<not> bit (b AND 0x80) n"
      using nb by (auto simp only: bit_and_iff bit_0x80)
    then show "b AND 0x80 = 0"
      by (simp add: bit_eq_iff)
  qed
  also have "\<not> bit b 7 \<longleftrightarrow> b < 128"
  proof -
    have "bit b 7 \<longleftrightarrow> odd (b div 128)"
      by (simp add: bit_iff_odd)
    moreover have "b div 128 = (if b < 128 then 0 else 1)"
      using assms by auto
    ultimately show ?thesis
      by simp
  qed
  finally show ?thesis .
qed

lemma push_7_or:
  assumes "0 \<le> (x::int)" "x < 128"
  shows "push_bit 7 acc OR x = acc * 128 + x"
proof -
  have x: "x = take_bit 7 x"
    using assms by (simp add: take_bit_eq_mod)
  have "push_bit 7 acc + x = push_bit 7 acc OR x"
  proof (rule disjunctive_add)
    fix n
    have "\<not> bit (push_bit 7 acc) n \<or> \<not> bit (take_bit 7 x) n"
      by (auto simp only: bit_push_bit_iff_int bit_take_bit_iff)
    then show "\<not> bit (push_bit 7 acc) n \<or> \<not> bit x n"
      using x by metis
  qed
  then show ?thesis
    by (simp add: push_bit_eq_mult)
qed

subsection \<open>The encoder as digits in base 128\<close>

lemma div128_induct [case_names step]:
  assumes step: "\<And>v. (0 < v \<Longrightarrow> P (v div 128)) \<Longrightarrow> P v"
  shows "P (v::int)"
proof -
  have "P v" for out :: "int list"
  proof (induction v out rule: varlen_loop.induct)
    case (1 v out)
    show ?case
    proof (rule step)
      assume "0 < v"
      then have "P (drop_bit 7 v)"
        by (rule "1.IH")
      then show "P (v div 128)"
        by (simp only: shr_7)
    qed
  qed
  then show ?thesis .
qed

lemma varlen_loop_nonpos: "v \<le> 0 \<Longrightarrow> varlen_loop v out = out"
  by (subst varlen_loop.simps) simp

lemma varlen_loop_pos:
  "0 < v \<Longrightarrow> varlen_loop v out = varlen_loop (v div 128) ((v mod 128 + 128) # out)"
  by (subst varlen_loop.simps) (simp add: shr_7 and_7F or_0x80)

lemma varlen_loop_append: "varlen_loop v out = varlen_loop v [] @ out"
proof (induction v arbitrary: out rule: div128_induct)
  case (step v)
  show ?case
  proof (cases "0 < v")
    case True
    have "varlen_loop v out = varlen_loop (v div 128) [] @ (v mod 128 + 128) # out"
      using True step [OF True, of "(v mod 128 + 128) # out"] by (simp add: varlen_loop_pos)
    moreover have "varlen_loop v [] = varlen_loop (v div 128) [] @ [v mod 128 + 128]"
      using True step [OF True, of "[v mod 128 + 128]"] by (simp add: varlen_loop_pos)
    ultimately show ?thesis
      by simp
  next
    case False
    then show ?thesis
      by (simp add: varlen_loop_nonpos)
  qed
qed

lemma varlen_loop_snoc:
  "0 < v \<Longrightarrow> varlen_loop v [] = varlen_loop (v div 128) [] @ [v mod 128 + 128]"
  using varlen_loop_append [of "v div 128" "[v mod 128 + 128]"]
  by (simp add: varlen_loop_pos)


lemma write_varlen_eq:
  "write_varlen v = varlen_loop (max 0 v div 128) [] @ [max 0 v mod 128]"
  unfolding write_varlen_def Let_def shr_7 and_7F
  by (rule varlen_loop_append)
lemma read_varlen_acc_hi:
  assumes "0 \<le> d" "d < 128"
  shows "read_varlen_acc acc ((d + 128) # bs) = read_varlen_acc (acc * 128 + d) bs"
proof -
  have "(d + 128) AND 0x80 \<noteq> 0"
    using assms and_0x80_zero_iff [of "d + 128"] by simp
  moreover have "(d + 128) AND 0x7F = d"
    using assms by (simp add: and_7F)
  ultimately show ?thesis
    using assms by (simp add: push_7_or)
qed

lemma read_varlen_acc_lo:
  assumes "0 \<le> d" "d < 128"
  shows "read_varlen_acc acc (d # bs) = Some (acc * 128 + d, bs)"
proof -
  have "d AND 0x80 = 0"
    using assms and_0x80_zero_iff [of d] by simp
  moreover have "d AND 0x7F = d"
    using assms by (simp add: and_7F)
  ultimately show ?thesis
    using assms by (simp add: push_7_or)
qed

lemma read_varlen_acc_loop:
  "0 \<le> v \<Longrightarrow> read_varlen_acc acc (varlen_loop v [] @ bs)
     = read_varlen_acc (acc * 128 ^ length (varlen_loop v []) + v) bs"
proof (induction v arbitrary: bs rule: div128_induct)
  case (step v)
  show ?case
  proof (cases "0 < v")
    case True
    let ?l = "length (varlen_loop (v div 128) [])"
    have "read_varlen_acc acc (varlen_loop v [] @ bs)
        = read_varlen_acc acc (varlen_loop (v div 128) [] @ (v mod 128 + 128) # bs)"
      using True by (simp add: varlen_loop_snoc)
    also have "\<dots> = read_varlen_acc (acc * 128 ^ ?l + v div 128) ((v mod 128 + 128) # bs)"
      using True by (intro step) simp_all
    also have "\<dots> = read_varlen_acc ((acc * 128 ^ ?l + v div 128) * 128 + v mod 128) bs"
      by (rule read_varlen_acc_hi) simp_all
    also have "(acc * 128 ^ ?l + v div 128) * 128 + v mod 128
        = acc * 128 ^ length (varlen_loop v []) + v"
      using True by (simp add: varlen_loop_snoc algebra_simps)
    finally show ?thesis .
  next
    case False
    with step.prems have "v = 0" by simp
    then show ?thesis
      by (simp add: varlen_loop_nonpos)
  qed
qed

lemma read_write_varlen:
  "read_varlen (write_varlen v @ rest) = Some (max 0 v, rest)"
proof -
  let ?w = "max 0 v"
  have "read_varlen (write_varlen v @ rest)
      = read_varlen_acc 0 (varlen_loop (?w div 128) [] @ (?w mod 128) # rest)"
    by (simp add: read_varlen_def write_varlen_eq)
  also have "\<dots> = read_varlen_acc (?w div 128) ((?w mod 128) # rest)"
    by (subst read_varlen_acc_loop) (simp_all add: pos_imp_zdiv_nonneg_iff)
  also have "\<dots> = Some (?w div 128 * 128 + ?w mod 128, rest)"
    by (rule read_varlen_acc_lo) simp_all
  finally show ?thesis
    by simp
qed

lemma app2_varlen_loop_eq:
  "0 \<le> v \<Longrightarrow> app2_varlen_loop v out = Some (varlen_loop v out)"
proof (induction v arbitrary: out rule: div128_induct)
  case (step v)
  show ?case
  proof (cases "0 < v")
    case True
    have "app2_varlen_loop v out
        = app2_varlen_loop (drop_bit 7 v) (((v AND 0x7F) OR 0x80) # out)"
      using True by (subst app2_varlen_loop.simps) simp
    also have "\<dots> = app2_varlen_loop (v div 128) ((v mod 128 + 128) # out)"
      by (simp add: shr_7 and_7F or_0x80)
    also have "\<dots> = Some (varlen_loop (v div 128) ((v mod 128 + 128) # out))"
      using True by (intro step) simp_all
    finally show ?thesis
      using True by (simp add: varlen_loop_pos)
  next
    case False
    with step.prems have "v = 0" by simp
    then show ?thesis
      by (subst app2_varlen_loop.simps) (simp add: varlen_loop_nonpos)
  qed
qed

lemma app2_write_varlen_eq:
  "0 \<le> v \<Longrightarrow> app2_write_varlen v = Some (write_varlen v)"
  by (simp add: app2_write_varlen_def write_varlen_def Let_def app2_varlen_loop_eq shr_7
      pos_imp_zdiv_nonneg_iff)

lemma pow128_le_div:
  assumes "128 ^ Suc m \<le> (v::int)"
  shows "128 ^ m \<le> v div 128"
proof -
  have "(128::int) ^ m = (128 ^ Suc m) div 128"
    by simp
  also have "\<dots> \<le> v div 128"
    using assms by (intro zdiv_mono1) simp_all
  finally show ?thesis .
qed

lemma varlen_loop_length:
  "0 < k \<Longrightarrow> 128 ^ (k - 1) \<le> v \<Longrightarrow> v < 128 ^ k \<Longrightarrow> length (varlen_loop v []) = k"
proof (induction k arbitrary: v)
  case 0
  then show ?case by simp
next
  case (Suc k)
  have pos: "0 < v"
    using Suc.prems(2) by (smt (verit) zero_less_power)
  have snoc: "varlen_loop v [] = varlen_loop (v div 128) [] @ [v mod 128 + 128]"
    using pos by (rule varlen_loop_snoc)
  show ?case
  proof (cases "k = 0")
    case True
    with Suc.prems have "v div 128 = 0" by simp
    then show ?thesis
      using True snoc by (simp add: varlen_loop_nonpos)
  next
    case False
    then obtain j where k: "k = Suc j"
      by (cases k) simp_all
    have "128 ^ (k - 1) \<le> v div 128"
      using Suc.prems(2) k by (intro pow128_le_div) simp
    moreover have "v div 128 < 128 ^ k"
      using Suc.prems(3) by (simp add: div_less_iff_less_mult mult.commute)
    ultimately have "length (varlen_loop (v div 128) []) = k"
      using False by (intro Suc.IH) simp_all
    then show ?thesis
      using snoc by simp
  qed
qed

lemma varlen_loop_nth:
  "0 \<le> v \<Longrightarrow> i < length (varlen_loop v []) \<Longrightarrow>
     varlen_loop v [] ! i = (v div 128 ^ (length (varlen_loop v []) - 1 - i)) mod 128 + 128"
proof (induction v arbitrary: i rule: div128_induct)
  case (step v)
  show ?case
  proof (cases "0 < v")
    case True
    let ?l = "length (varlen_loop (v div 128) [])"
    have snoc: "varlen_loop v [] = varlen_loop (v div 128) [] @ [v mod 128 + 128]"
      using True by (rule varlen_loop_snoc)
    show ?thesis
    proof (cases "i < ?l")
      case il: True
      have "varlen_loop (v div 128) [] ! i = (v div 128 div 128 ^ (?l - 1 - i)) mod 128 + 128"
        using True il by (intro step.IH) simp_all
      also have "v div 128 div 128 ^ (?l - 1 - i) = v div 128 ^ Suc (?l - 1 - i)"
        by (simp add: zdiv_zmult2_eq)
      also have "Suc (?l - 1 - i) = length (varlen_loop v []) - 1 - i"
        using il snoc by simp
      finally show ?thesis
        using il snoc by (simp add: nth_append)
    next
      case False
      with step.prems(2) snoc have "i = ?l" by simp
      then show ?thesis
        using snoc by (simp add: nth_append)
    qed
  next
    case False
    with step.prems show ?thesis
      by (simp add: varlen_loop_nonpos)
  qed
qed

lemma write_varlen_length:
  assumes "0 \<le> v" "0 < k" "k = 1 \<or> 128 ^ (k - 1) \<le> v" "v < 128 ^ k"
  shows "length (write_varlen v) = k"
proof (cases "v < 128")
  case True
  have "k = 1"
  proof (rule ccontr)
    assume "k \<noteq> 1"
    with assms have "128 ^ (k - 1) \<le> v" and "0 < k - 1"
      by auto
    moreover from \<open>0 < k - 1\<close> have "(128::int) \<le> 128 ^ (k - 1)"
      by (intro self_le_power) simp_all
    ultimately show False
      using True by simp
  qed
  moreover have "v div 128 = 0"
    using True assms(1) by simp
  ultimately show ?thesis
    using assms(1) by (simp add: write_varlen_eq varlen_loop_nonpos)
next
  case False
  have "k \<noteq> 1"
    using False assms(4) by auto
  then have k2: "2 \<le> k"
    using assms(2) by simp
  then obtain j where k: "k = Suc j" "0 < j"
    by (cases k) auto
  have "128 ^ (j - 1) \<le> v div 128"
  proof (cases "j = 1")
    case True
    then show ?thesis using False by simp
  next
    case j: False
    then obtain m where "j = Suc m" using k(2) by (cases j) auto
    moreover have "128 ^ (k - 1) \<le> v" using assms(3) k2 by auto
    ultimately show ?thesis
      using k(1) by (intro pow128_le_div) simp
  qed
  moreover have "v div 128 < 128 ^ j"
    using assms(4) k(1) by (simp add: div_less_iff_less_mult mult.commute)
  ultimately have "length (varlen_loop (v div 128) []) = j"
    using k(2) by (intro varlen_loop_length) simp_all
  then show ?thesis
    using assms(1) k(1) by (simp add: write_varlen_eq)
qed

lemma write_varlen_nth:
  assumes "0 \<le> v" "i < length (write_varlen v)"
  shows "write_varlen v ! i = (v div 128 ^ (length (write_varlen v) - 1 - i)) mod 128
           + (if i < length (write_varlen v) - 1 then 128 else 0)"
proof -
  let ?l = "length (varlen_loop (v div 128) [])"
  have w: "write_varlen v = varlen_loop (v div 128) [] @ [v mod 128]"
    using assms(1) by (simp add: write_varlen_eq)
  show ?thesis
  proof (cases "i < ?l")
    case True
    have "varlen_loop (v div 128) [] ! i = (v div 128 div 128 ^ (?l - 1 - i)) mod 128 + 128"
      using assms(1) True by (intro varlen_loop_nth) (simp_all add: pos_imp_zdiv_nonneg_iff)
    also have "v div 128 div 128 ^ (?l - 1 - i) = v div 128 ^ Suc (?l - 1 - i)"
      by (simp add: zdiv_zmult2_eq)
    also have "Suc (?l - 1 - i) = length (write_varlen v) - 1 - i"
      using True w by simp
    finally show ?thesis
      using True w by (simp add: nth_append)
  next
    case False
    with assms(2) w have "i = ?l" by simp
    then show ?thesis
      using w by (simp add: nth_append)
  qed
qed

section \<open>Lemmas about the codec\<close>

lemma varlen_loop_bytes: "list_all is_byte (varlen_loop v [])"
proof (induction v rule: div128_induct)
  case (step v)
  show ?case
  proof (cases "0 < v")
    case True
    have "is_byte (v mod 128 + 128)"
      by (simp add: is_byte_def)
    then show ?thesis
      using True step by (simp add: varlen_loop_snoc)
  next
    case False
    then show ?thesis
      by (simp add: varlen_loop_nonpos)
  qed
qed

lemma write_varlen_bytes: "list_all is_byte (write_varlen v)"
proof -
  have "is_byte (max 0 v mod 128)"
    by (simp add: is_byte_def)
  then show ?thesis
    by (simp add: write_varlen_eq varlen_loop_bytes)
qed

lemma write_varlen_0: "write_varlen 0 = [0]"
  by (simp add: write_varlen_eq varlen_loop_nonpos)

lemma write_varlen_neg: "v < 0 \<Longrightarrow> write_varlen v = [0]"
  by (simp add: write_varlen_eq varlen_loop_nonpos)

lemma sum_bind_Inr [simp]: "sum_bind (Inr x) f = f x"
  by (simp add: sum_bind_def)

lemma sum_bind_Inl [simp]: "sum_bind (Inl e) f = Inl e"
  by (simp add: sum_bind_def)

lemma track_step_ok:
  "list_all is_byte msg \<Longrightarrow>
     track_step (tick, msg) (t0, data) = Inr (tick, data @ write_varlen (tick - t0) @ msg)"
  by (simp add: track_step_def bytearray_extend_def write_varlen_bytes)

lemma track_step_bad:
  "\<not> list_all is_byte msg \<Longrightarrow> track_step (tick, msg) (t0, data) = Inl ValueError"
  by (simp add: track_step_def bytearray_extend_def write_varlen_bytes)



lemma track_loop_ok:
  "msgs_ok es \<Longrightarrow>
     \<exists>l. for_each track_step es (t0, data) = Inr (l, data @ track_body t0 es)"
proof (induction es arbitrary: t0 data)
  case Nil
  then show ?case by simp
next
  case (Cons e es)
  obtain tick msg where e: "e = (tick, msg)"
    by (cases e)
  from Cons.prems e have m: "list_all is_byte msg" and r: "msgs_ok es"
    by (simp_all add: msgs_ok_def)
  from Cons.IH [OF r, of tick "data @ write_varlen (tick - t0) @ msg"]
  show ?case
    using e m by (auto simp: track_step_ok)
qed

lemma track_loop_bad:
  "\<not> msgs_ok es \<Longrightarrow> for_each track_step es (t0, data) = Inl ValueError"
proof (induction es arbitrary: t0 data)
  case Nil
  then show ?case by (simp add: msgs_ok_def)
next
  case (Cons e es)
  obtain tick msg where e: "e = (tick, msg)"
    by (cases e)
  show ?case
  proof (cases "list_all is_byte msg")
    case True
    with Cons.prems e have "\<not> msgs_ok es"
      by (simp add: msgs_ok_def)
    then show ?thesis
      using e True Cons.IH by (simp add: track_step_ok)
  next
    case False
    then show ?thesis
      using e by (simp add: track_step_bad)
  qed
qed

lemma msgs_ok_sort: "msgs_ok (sort_key fst es) = msgs_ok es"
  by (simp add: msgs_ok_def list_all_iff)

lemma build_track_ok:
  assumes "msgs_ok es"
  shows "build_track es = Inr (track_body 0 (sort_key fst es) @ [0x00, 0xFF, 0x2F, 0x00])"
proof -
  from assms have "msgs_ok (sort_key fst es)"
    by (simp add: msgs_ok_sort)
  then obtain l where
    "for_each track_step (sort_key fst es) (0, []) = Inr (l, [] @ track_body 0 (sort_key fst es))"
    using track_loop_ok by blast
  then show ?thesis
    by (simp add: build_track_def bytearray_extend_def write_varlen_0 is_byte_def)
qed

lemma build_track_bad: "\<not> msgs_ok es \<Longrightarrow> build_track es = Inl ValueError"
  by (simp add: build_track_def track_loop_bad msgs_ok_sort)

lemma read_deltas_track_body:
  assumes "sorted (map fst es)" "\<forall>e \<in> set es. t0 \<le> fst e"
  shows "\<exists>ds. read_deltas (map (length \<circ> snd) es) (track_body t0 es @ rest) = Some ds
            \<and> running_sum t0 ds = map fst es"
  using assms
proof (induction es arbitrary: t0)
  case Nil
  then show ?case by simp
next
  case (Cons e es)
  obtain tick msg where e: "e = (tick, msg)"
    by (cases e)
  have le: "t0 \<le> tick"
    using Cons.prems(2) e by simp
  have "sorted (map fst es)" and "\<forall>x \<in> set es. tick \<le> fst x"
    using Cons.prems(1) e by simp_all
  then obtain ds where ds:
    "read_deltas (map (length \<circ> snd) es) (track_body tick es @ rest) = Some ds"
    "running_sum tick ds = map fst es"
    using Cons.IH by blast
  have "read_varlen (write_varlen (tick - t0) @ msg @ track_body tick es @ rest)
      = Some (tick - t0, msg @ track_body tick es @ rest)"
    using le by (simp add: read_write_varlen)
  then have "read_deltas (map (length \<circ> snd) (e # es)) (track_body t0 (e # es) @ rest)
      = Some ((tick - t0) # ds)"
    using e ds(1) by simp
  moreover have "running_sum t0 ((tick - t0) # ds) = map fst (e # es)"
    using e ds(2) by simp
  ultimately show ?case
    by blast
qed

lemma map_insort_key: "map f (insort_key f x xs) = insort (f x) (map f xs)"
  by (induction xs) simp_all

lemma map_sort_key: "map f (sort_key f xs) = sort (map f xs)"
  by (induction xs) (simp_all add: map_insort_key)

section \<open>Lemmas about the generators\<close>

subsection \<open>Library operations\<close>

lemma index_nth:
  "0 \<le> i \<Longrightarrow> i < int (length xs) \<Longrightarrow> index xs i = Inr (xs ! nat i)"
  by (simp add: index_def)

lemma index_in_set: "index xs i = Inr x \<Longrightarrow> x \<in> set xs"
  by (auto simp: index_def split: if_splits)

lemma randint_range:
  assumes "rng_ok ops" "a \<le> b"
  shows "a \<le> fst (randint ops a b s) \<and> fst (randint ops a b s) \<le> b"
proof -
  obtain k s' where k: "rng_randbelow ops s (nat (b - a + 1)) = (k, s')"
    by (cases "rng_randbelow ops s (nat (b - a + 1))")
  have "fst (rng_randbelow ops s (nat (b - a + 1))) < nat (b - a + 1)"
    using assms by (simp add: rng_ok_def)
  with k have "int k < b - a + 1"
    using assms(2) by simp
  then show ?thesis
    using k by (simp add: randint_def)
qed

lemma choice_in_set: "choice ops xs s = Inr (x, s') \<Longrightarrow> rng_ok ops \<Longrightarrow> x \<in> set xs"
proof -
  assume c: "choice ops xs s = Inr (x, s')" and ok: "rng_ok ops"
  then have ne: "xs \<noteq> []"
    by (auto simp: choice_def)
  obtain k t where k: "rng_randbelow ops s (length xs) = (k, t)"
    by (cases "rng_randbelow ops s (length xs)")
  have "fst (rng_randbelow ops s (length xs)) < length xs"
    using ok ne by (simp add: rng_ok_def)
  with k have "k < length xs"
    by simp
  with c ne k show ?thesis
    by (auto simp: choice_def)
qed

lemma int_of_float_bounds:
  assumes "real_of_int lo \<le> x" "x \<le> real_of_int hi" "0 \<le> lo"
  shows "lo \<le> int_of_float x \<and> int_of_float x \<le> hi"
proof -
  have "0 \<le> x"
    using assms by linarith
  then have "int_of_float x = \<lfloor>x\<rfloor>"
    by (simp add: int_of_float_def)
  moreover have "lo \<le> \<lfloor>x\<rfloor>"
    using assms(1) by (simp add: le_floor_iff)
  moreover have "\<lfloor>x\<rfloor> \<le> hi"
    using assms(2) by (simp add: floor_le_iff)
  ultimately show ?thesis
    by simp
qed

subsection \<open>Loops\<close>

lemma for_each_invariant:
  assumes "for_each body xs s0 = Inr s'" "I s0"
    and "\<And>x s t. x \<in> set xs \<Longrightarrow> I s \<Longrightarrow> body x s = Inr t \<Longrightarrow> I t"
  shows "I s'"
  using assms
proof (induction xs arbitrary: s0)
  case Nil
  then show ?case by simp
next
  case (Cons x xs)
  from Cons.prems(1) obtain t where t: "body x s0 = Inr t" "for_each body xs t = Inr s'"
    by (auto split: sum.splits)
  have "I t"
    using Cons.prems(2) t(1) by (rule Cons.prems(3) [of x, simplified])
  show ?case
  proof (rule Cons.IH [OF t(2) \<open>I t\<close>])
    show "I v" if "y \<in> set xs" "I u" "body y u = Inr v" for y u v
      using that Cons.prems(3) [of y u v] by simp
  qed
qed

lemma for_each_from:
  assumes "I k s" "k \<le> n"
    and "\<And>j s. k \<le> j \<Longrightarrow> j < n \<Longrightarrow> I j s \<Longrightarrow> \<exists>t. body (int j) s = Inr t \<and> I (Suc j) t"
  shows "\<exists>s'. for_each body (map int [k..<n]) s = Inr s' \<and> I n s'"
  using assms
proof (induction "n - k" arbitrary: k s)
  case 0
  then show ?case by simp
next
  case (Suc d)
  then have kn: "k < n"
    by simp
  then obtain t where t: "body (int k) s = Inr t" "I (Suc k) t"
    using Suc.prems(1,3) by blast
  have "\<exists>s'. for_each body (map int [Suc k..<n]) t = Inr s' \<and> I n s'"
  proof (rule Suc.hyps(1))
    show "d = n - Suc k"
      using Suc.hyps(2) by simp
    show "I (Suc k) t"
      by (rule t(2))
    show "Suc k \<le> n"
      using kn by simp
    show "\<exists>u. body (int j) s = Inr u \<and> I (Suc j) u" if "Suc k \<le> j" "j < n" "I j s" for j s
      using that Suc.prems(3) [of j s] by simp
  qed
  then show ?case
    using kn t(1) by (simp add: upt_conv_Cons)
qed

lemma for_each_range:
  assumes "I 0 s"
    and "\<And>j s. j < nat n \<Longrightarrow> I j s \<Longrightarrow> \<exists>t. body (int j) s = Inr t \<and> I (Suc j) t"
  shows "\<exists>s'. for_each body (py_range n) s = Inr s' \<and> I (nat n) s'"
  unfolding py_range_def using assms by (intro for_each_from) simp_all

subsection \<open>The scale\<close>

lemma build_scale_Inr:
  assumes "build_scale k m oct = Inr scale"
  shows "length scale = 7"
    and "\<forall>x \<in> set scale. 12 * (oct + 1) \<le> x \<and> x \<le> 12 * (oct + 1) + 22"
proof -
  from assms obtain semi where semi: "NOTE_TO_SEMI k = Some semi"
    and scale: "scale = map (\<lambda>i. 12 * (oct + 1) + semi + i)
        (if lower m = ''major'' then [0, 2, 4, 5, 7, 9, 11] else [0, 2, 3, 5, 7, 8, 10])"
    by (auto simp: build_scale_def midi_note_def Let_def split: option.splits)
  have "0 \<le> semi \<and> semi \<le> 11"
    using semi by (auto simp: NOTE_TO_SEMI_def split: if_splits)
  then show "\<forall>x \<in> set scale. 12 * (oct + 1) \<le> x \<and> x \<le> 12 * (oct + 1) + 22"
    unfolding scale by auto
  show "length scale = 7"
    unfolding scale by simp
qed

lemma build_scale_total:
  "NOTE_TO_SEMI k \<noteq> None \<Longrightarrow> \<exists>scale. build_scale k m oct = Inr scale"
  by (auto simp: build_scale_def midi_note_def Let_def)

lemma build_scale_KeyError:
  "NOTE_TO_SEMI k = None \<Longrightarrow> build_scale k m oct = Inl KeyError"
  by (simp add: build_scale_def midi_note_def)

subsection \<open>The chord generator\<close>

lemma chord_note_shape:
  "\<exists>rng' t v. chord_note ops p st et n (rng, ev)
       = (rng', ev @ [(t, [0x90, n, v]), (et - 100, [0x80, n, 0])])
     \<and> (rng_ok ops \<longrightarrow> st \<le> t \<and> t \<le> st + 40
          \<and> (0 \<le> energy p \<and> energy p \<le> 1 \<longrightarrow> 60 \<le> v \<and> v \<le> 85))"
proof -
  obtain stagger r1 where s: "randint ops 0 40 rng = (stagger, r1)"
    by (cases "randint ops 0 40 rng")
  obtain jitter r2 where j: "randint ops (- 5) 5 r1 = (jitter, r2)"
    by (cases "randint ops (- 5) 5 r1")
  let ?v = "int_of_float (65 + 15 * energy p + real_of_int jitter)"
  have eq: "chord_note ops p st et n (rng, ev)
      = (r2, ev @ [(st + stagger, [0x90, n, ?v]), (et - 100, [0x80, n, 0])])"
    by (simp add: chord_note_def s j)
  have "st \<le> st + stagger \<and> st + stagger \<le> st + 40
      \<and> (0 \<le> energy p \<and> energy p \<le> 1 \<longrightarrow> 60 \<le> ?v \<and> ?v \<le> 85)" if ok: "rng_ok ops"
  proof -
    have "0 \<le> stagger \<and> stagger \<le> 40"
      using randint_range [OF ok, of 0 40 rng] s by simp
    moreover have jb: "- 5 \<le> jitter \<and> jitter \<le> 5"
      using randint_range [OF ok, of "- 5" 5 r1] j by simp
    moreover have "60 \<le> ?v \<and> ?v \<le> 85" if "0 \<le> energy p \<and> energy p \<le> 1"
      using that jb by (intro int_of_float_bounds) simp_all
    ultimately show ?thesis
      by simp
  qed
  with eq show ?thesis
    by blast
qed

lemma roman_to_degree_range: "0 \<le> roman_to_degree tok \<and> roman_to_degree tok \<le> 6"
  unfolding roman_to_degree_def roman_mapping_def by simp

lemma chord_bar_no_tokens:
  "chord_bar ops p bt scale [] bar (rng, ev, degs) = Inl ZeroDivisionError"
  by (simp add: chord_bar_def py_mod_def)

lemma chord_bar_shape:
  assumes "tokens \<noteq> []" "length scale = 7"
  shows "\<exists>rng' six. chord_bar ops p bt scale tokens (int b) (rng, ev, degs)
        = Inr (rng', ev @ six, degs @ [spec_triad tokens b])
     \<and> length six = 6
     \<and> map (\<lambda>e. (snd e ! 0, snd e ! 1)) six
          = note_pairs (spec_voicing scale (spec_triad tokens b))
     \<and> (rng_ok ops \<and> 0 \<le> energy p \<and> energy p \<le> 1
          \<and> (\<forall>x \<in> set scale. 0 \<le> x \<and> x \<le> 115) \<longrightarrow> list_all note_in_range six)"
proof -
  let ?r = "roman_to_degree (tokens ! (b mod length tokens))"
  let ?st = "int b * bt" and ?et = "(int b + 1) * bt"
  have r: "0 \<le> ?r \<and> ?r \<le> 6"
    by (rule roman_to_degree_range)
  then have rm: "?r mod 7 = ?r"
    by simp
  have k: "py_mod (int b) (int (length tokens)) = Inr (int (b mod length tokens))"
    using assms(1) by (simp add: py_mod_def zmod_int)
  have tok: "index tokens (int (b mod length tokens)) = Inr (tokens ! (b mod length tokens))"
    using assms(1) by (simp add: index_nth)
  let ?d0 = "?r" and ?d1 = "(?r + 2) mod 7" and ?d2 = "(?r + 4) mod 7"
  let ?n0 = "scale ! nat ?d0" and ?n1 = "scale ! nat ?d2" and ?n2 = "scale ! nat ?d1 + 12"
  have i0: "index scale ?d0 = Inr (scale ! nat ?d0)"
    using r assms(2) by (intro index_nth) simp_all
  have i1: "index scale ?d1 = Inr (scale ! nat ?d1)"
    using assms(2) by (intro index_nth) simp_all
  have i2: "index scale ?d2 = Inr (scale ! nat ?d2)"
    using assms(2) by (intro index_nth) simp_all
  obtain r1 t0 v0 where c0: "chord_note ops p ?st ?et ?n0 (rng, ev)
        = (r1, ev @ [(t0, [0x90, ?n0, v0]), (?et - 100, [0x80, ?n0, 0])])"
    and b0: "rng_ok ops \<longrightarrow> (0 \<le> energy p \<and> energy p \<le> 1 \<longrightarrow> 60 \<le> v0 \<and> v0 \<le> 85)"
    using chord_note_shape [of ops p ?st ?et ?n0 rng ev] by blast
  let ?e1 = "ev @ [(t0, [0x90, ?n0, v0]), (?et - 100, [0x80, ?n0, 0])]"
  obtain r2 t1 v1 where c1: "chord_note ops p ?st ?et ?n1 (r1, ?e1)
        = (r2, ev @ [(t0, [0x90, ?n0, v0]), (?et - 100, [0x80, ?n0, 0]),
                     (t1, [0x90, ?n1, v1]), (?et - 100, [0x80, ?n1, 0])])"
    and b1: "rng_ok ops \<longrightarrow> (0 \<le> energy p \<and> energy p \<le> 1 \<longrightarrow> 60 \<le> v1 \<and> v1 \<le> 85)"
    using chord_note_shape [of ops p ?st ?et ?n1 r1 ?e1] by auto
  let ?e2 = "ev @ [(t0, [0x90, ?n0, v0]), (?et - 100, [0x80, ?n0, 0]),
                   (t1, [0x90, ?n1, v1]), (?et - 100, [0x80, ?n1, 0])]"
  obtain r3 t2 v2 where c2: "chord_note ops p ?st ?et ?n2 (r2, ?e2)
        = (r3, ev @ [(t0, [0x90, ?n0, v0]), (?et - 100, [0x80, ?n0, 0]),
                     (t1, [0x90, ?n1, v1]), (?et - 100, [0x80, ?n1, 0]),
                     (t2, [0x90, ?n2, v2]), (?et - 100, [0x80, ?n2, 0])])"
    and b2: "rng_ok ops \<longrightarrow> (0 \<le> energy p \<and> energy p \<le> 1 \<longrightarrow> 60 \<le> v2 \<and> v2 \<le> 85)"
    using chord_note_shape [of ops p ?st ?et ?n2 r2 ?e2] by auto
  let ?six = "[(t0, [0x90, ?n0, v0]), (?et - 100, [0x80, ?n0, 0]),
               (t1, [0x90, ?n1, v1]), (?et - 100, [0x80, ?n1, 0]),
               (t2, [0x90, ?n2, v2]), (?et - 100, [0x80, ?n2, 0])]"
  have "chord_bar ops p bt scale tokens (int b) (rng, ev, degs)
      = Inr (r3, ev @ ?six, degs @ [spec_triad tokens b])"
    by (simp add: chord_bar_def k tok Let_def rm i0 i1 i2 c0 c1 c2 spec_triad_def)
  moreover have "length ?six = 6"
    by simp
  moreover have "map (\<lambda>e. (snd e ! 0, snd e ! 1)) ?six
      = note_pairs (spec_voicing scale (spec_triad tokens b))"
    by (simp add: note_pairs_def spec_voicing_def spec_triad_def Let_def)
  moreover have "list_all note_in_range ?six"
    if h: "rng_ok ops \<and> 0 \<le> energy p \<and> energy p \<le> 1
      \<and> (\<forall>x \<in> set scale. 0 \<le> x \<and> x \<le> 115)"
  proof -
    have "nat ?d0 < length scale" "nat ?d1 < length scale" "nat ?d2 < length scale"
      using r assms(2) by (simp_all add: nat_less_iff)
    then have "scale ! nat ?d0 \<in> set scale" "scale ! nat ?d1 \<in> set scale"
      "scale ! nat ?d2 \<in> set scale"
      by (simp_all only: nth_mem)
    with h have "0 \<le> ?n0 \<and> ?n0 \<le> 127" "0 \<le> ?n1 \<and> ?n1 \<le> 127" "0 \<le> ?n2 \<and> ?n2 \<le> 127"
      by force+
    moreover have "60 \<le> v0 \<and> v0 \<le> 85" "60 \<le> v1 \<and> v1 \<le> 85" "60 \<le> v2 \<and> v2 \<le> 85"
      using h b0 b1 b2 by simp_all
    ultimately show ?thesis
      by (simp add: note_in_range_def)
  qed
  ultimately show ?thesis
    by blast
qed

lemma chords_loop:
  fixes rng :: 'r
  assumes tk: "tokens \<noteq> []" and sc: "length scale = 7"
  shows "\<exists>rng' ev degs.
      for_each (chord_bar ops p bt scale tokens) (py_range n) (rng, [], []) = Inr (rng', ev, degs)
      \<and> length ev = 6 * nat n \<and> length degs = nat n
      \<and> (\<forall>b < nat n. degs ! b = spec_triad tokens b
            \<and> map (\<lambda>e. (snd e ! 0, snd e ! 1)) (take 6 (drop (6 * b) ev))
                = note_pairs (spec_voicing scale (spec_triad tokens b)))
      \<and> (rng_ok ops \<and> 0 \<le> energy p \<and> energy p \<le> 1
            \<and> (\<forall>x \<in> set scale. 0 \<le> x \<and> x \<le> 115) \<longrightarrow> list_all note_in_range ev)"
proof -
  let ?H = "rng_ok ops \<and> 0 \<le> energy p \<and> energy p \<le> 1
            \<and> (\<forall>x \<in> set scale. 0 \<le> x \<and> x \<le> 115)"
  let ?f = "\<lambda>e :: event. (snd e ! 0, snd e ! 1)"
  define I where "I = (\<lambda>k (s :: 'r \<times> event list \<times> int list list).
      length (fst (snd s)) = 6 * k \<and> length (snd (snd s)) = k
      \<and> (\<forall>b < k. snd (snd s) ! b = spec_triad tokens b
            \<and> map ?f (take 6 (drop (6 * b) (fst (snd s))))
                = note_pairs (spec_voicing scale (spec_triad tokens b)))
      \<and> (?H \<longrightarrow> list_all note_in_range (fst (snd s))))"
  have init: "I 0 (rng, [], [])"
    by (simp add: I_def)
  have step: "\<exists>t. chord_bar ops p bt scale tokens (int j) s = Inr t \<and> I (Suc j) t"
    if "j < nat n" and Ij: "I j s" for j s
  proof -
    obtain r ev degs where s: "s = (r, ev, degs)"
      by (cases s)
    from Ij s have len: "length ev = 6 * j" "length degs = j"
      and old: "\<forall>b < j. degs ! b = spec_triad tokens b
            \<and> map ?f (take 6 (drop (6 * b) ev))
                = note_pairs (spec_voicing scale (spec_triad tokens b))"
      and rg: "?H \<longrightarrow> list_all note_in_range ev"
      by (simp_all add: I_def)
    obtain r' six where cb: "chord_bar ops p bt scale tokens (int j) (r, ev, degs)
          = Inr (r', ev @ six, degs @ [spec_triad tokens j])"
      and six: "length six = 6"
        "map ?f six = note_pairs (spec_voicing scale (spec_triad tokens j))"
        "?H \<longrightarrow> list_all note_in_range six"
      using chord_bar_shape [OF tk sc, of ops p bt j r ev degs] by blast
    have "I (Suc j) (r', ev @ six, degs @ [spec_triad tokens j])"
      unfolding I_def
    proof (intro conjI allI impI; simp only: fst_conv snd_conv)
      show "length (ev @ six) = 6 * Suc j"
        using len six by simp
      show "length (degs @ [spec_triad tokens j]) = Suc j"
        using len by simp
      show "list_all note_in_range (ev @ six)" if ?H
        using that rg six(3) by simp
    next
      fix b assume b: "b < Suc j"
      show "(degs @ [spec_triad tokens j]) ! b = spec_triad tokens b"
        using b len old by (cases "b = j") (simp_all add: nth_append)
      show "map ?f (take 6 (drop (6 * b) (ev @ six)))
          = note_pairs (spec_voicing scale (spec_triad tokens b))"
      proof (cases "b = j")
        case True
        then show ?thesis
          using len six by simp
      next
        case False
        with b have bj: "b < j"
          by simp
        then have "6 * b + 6 \<le> length ev"
          using len by simp
        then have "take 6 (drop (6 * b) (ev @ six)) = take 6 (drop (6 * b) ev)"
          by simp
        then show ?thesis
          using old bj by simp
      qed
    qed
    with cb s show ?thesis
      by blast
  qed
  have "\<exists>s'. for_each (chord_bar ops p bt scale tokens) (py_range n) (rng, [], []) = Inr s'
      \<and> I (nat n) s'"
  proof (rule for_each_range [where I = I])
    show "I 0 (rng, [], [])"
      by (rule init)
    show "\<exists>t. chord_bar ops p bt scale tokens (int j) s = Inr t \<and> I (Suc j) t"
      if "j < nat n" "I j s" for j s
      using that by (rule step)
  qed
  then obtain s' where s': "for_each (chord_bar ops p bt scale tokens) (py_range n) (rng, [], []) = Inr s'"
    "I (nat n) s'"
    by blast
  obtain r ev degs where "s' = (r, ev, degs)"
    by (cases s')
  with s' show ?thesis
    unfolding I_def by auto
qed

lemma make_chords_char:
  assumes sc: "build_scale (key p) (mode p) (chord_octave p) = Inr scale"
    and tk: "tokens_of (progression p) \<noteq> []"
  shows "\<exists>ev degs. make_chords ops p bt = Inr (ev, degs)
      \<and> length ev = 6 * nat (bars p) \<and> length degs = nat (bars p)
      \<and> (\<forall>b < nat (bars p). degs ! b = spec_triad (tokens_of (progression p)) b
            \<and> map (\<lambda>e. (snd e ! 0, snd e ! 1)) (take 6 (drop (6 * b) ev))
                = note_pairs (spec_voicing scale (spec_triad (tokens_of (progression p)) b)))
      \<and> (rng_ok ops \<and> 0 \<le> energy p \<and> energy p \<le> 1
            \<and> (\<forall>x \<in> set scale. 0 \<le> x \<and> x \<le> 115) \<longrightarrow> list_all note_in_range ev)"
proof -
  have len: "length scale = 7"
    using sc by (rule build_scale_Inr(1))
  from chords_loop [OF tk len, of ops p bt "bars p" "rng_seed ops (seed p)"]
  obtain rng' ev degs where
    "for_each (chord_bar ops p bt scale (tokens_of (progression p))) (py_range (bars p))
       (rng_seed ops (seed p), [], []) = Inr (rng', ev, degs)"
    and rest: "length ev = 6 * nat (bars p) \<and> length degs = nat (bars p)
      \<and> (\<forall>b < nat (bars p). degs ! b = spec_triad (tokens_of (progression p)) b
            \<and> map (\<lambda>e. (snd e ! 0, snd e ! 1)) (take 6 (drop (6 * b) ev))
                = note_pairs (spec_voicing scale (spec_triad (tokens_of (progression p)) b)))
      \<and> (rng_ok ops \<and> 0 \<le> energy p \<and> energy p \<le> 1
            \<and> (\<forall>x \<in> set scale. 0 \<le> x \<and> x \<le> 115) \<longrightarrow> list_all note_in_range ev)"
    by blast
  then have "make_chords ops p bt = Inr (ev, degs)"
    by (simp add: make_chords_def sc)
  with rest show ?thesis
    by blast
qed

lemma make_chords_no_tokens:
  assumes "build_scale (key p) (mode p) (chord_octave p) = Inr scale"
    and "tokens_of (progression p) = []"
  shows "make_chords ops p bt
      = (if bars p \<le> 0 then Inr ([], []) else Inl ZeroDivisionError)"
proof (cases "bars p \<le> 0")
  case True
  then show ?thesis
    using assms by (simp add: make_chords_def py_range_def)
next
  case False
  then have "py_range (bars p) = 0 # map int [1..<nat (bars p)]"
    by (simp add: py_range_def upt_conv_Cons)
  then show ?thesis
    using assms False by (simp add: make_chords_def chord_bar_no_tokens)
qed

lemma make_chords_KeyError:
  "NOTE_TO_SEMI (key p) = None \<Longrightarrow> make_chords ops p bt = Inl KeyError"
  by (simp add: make_chords_def build_scale_KeyError)

subsection \<open>The melody and drum generators\<close>

lemma randint_rangeD:
  "randint ops a b s = (x, s') \<Longrightarrow> rng_ok ops \<Longrightarrow> a \<le> b \<Longrightarrow> a \<le> x \<and> x \<le> b"
  using randint_range [of ops a b s] by simp

lemma melody_step_range:
  assumes ok: "rng_ok ops"
    and sc: "\<forall>x \<in> set lead_scale. 0 \<le> x \<and> x \<le> 127"
    and ev: "list_all note_in_range ev"
    and st: "melody_step ops lead_scale base ct (i, hit) (rng, ev) = Inr (rng', ev')"
  shows "list_all note_in_range ev'"
proof (cases "hit = 0")
  case True
  with st ev show ?thesis
    by (simp add: melody_step_def)
next
  case False
  obtain on_chord r0 where oc:
    "(if i mod 4 = 0 then (True, rng) else random_lt_0_7 ops rng) = (on_chord, r0)"
    by (cases "if i mod 4 = 0 then (True, rng) else random_lt_0_7 ops rng")
  from st False oc obtain deg r1 where
    ch: "(if on_chord then choice ops ct r0 else choice ops (py_range 7) r0) = Inr (deg, r1)"
    by (auto simp: melody_step_def sum_bind_def split: sum.splits)
  from st False oc ch obtain pitch where nt: "index lead_scale deg = Inr pitch"
    by (auto simp: melody_step_def sum_bind_def split: sum.splits)
  obtain shift r2 where sh: "randint ops (- 20) 20 r1 = (shift, r2)"
    by (cases "randint ops (- 20) 20 r1")
  obtain jitter r3 where ji: "randint ops (- 10) 10 r2 = (jitter, r3)"
    by (cases "randint ops (- 10) 10 r2")
  obtain dj r4 where du: "randint ops (- 50) 50 r3 = (dj, r4)"
    by (cases "randint ops (- 50) 50 r3")
  let ?vel = "(if i = 0 then 100 else if i mod 4 = 0 then 85 else 70) + jitter"
  let ?t = "base + i * (PPQN div 4) + shift"
  have ev': "ev' = ev @ [(?t, [0x91, pitch, ?vel]), (?t + (PPQN div 4 + dj), [0x81, pitch, 0])]"
    using st False oc ch nt sh ji du by (simp add: melody_step_def Let_def)
  have "pitch \<in> set lead_scale"
    using nt by (rule index_in_set)
  with sc have "0 \<le> pitch \<and> pitch \<le> 127"
    by simp
  moreover have "- 10 \<le> jitter \<and> jitter \<le> 10"
    using ji ok by (rule randint_rangeD) simp
  then have "0 \<le> ?vel \<and> ?vel \<le> 127"
    by simp
  ultimately show ?thesis
    unfolding ev' using ev by (simp add: note_in_range_def)
qed

lemma melody_bar_range:
  assumes ok: "rng_ok ops"
    and sc: "\<forall>x \<in> set lead_scale. 0 \<le> x \<and> x \<le> 127"
    and ev: "list_all note_in_range (snd s)"
    and st: "melody_bar ops lead_scale cd bt bar s = Inr s'"
  shows "list_all note_in_range (snd s')"
proof -
  from st obtain ct where
    loop: "for_each (melody_step ops lead_scale (bar * bt) ct) (enumerate rhythm) s = Inr s'"
    by (auto simp: melody_bar_def sum_bind_def Let_def split: sum.splits)
  show ?thesis
  proof (rule for_each_invariant [where I = "\<lambda>s. list_all note_in_range (snd s)", OF loop ev])
    fix x :: "int \<times> int" and u t :: "'a \<times> event list"
    assume "list_all note_in_range (snd u)"
      and "melody_step ops lead_scale (bar * bt) ct x u = Inr t"
    then show "list_all note_in_range (snd t)"
      using melody_step_range [OF ok sc, of "snd u" "bar * bt" ct "fst x" "snd x" "fst u" "fst t" "snd t"]
      by simp
  qed
qed

lemma make_melody_range:
  assumes ok: "rng_ok ops"
    and sc: "build_scale (key p) (mode p) (melody_octave p) = Inr lead_scale"
    and oct: "- 1 \<le> melody_octave p" "melody_octave p \<le> 7"
    and mm: "make_melody ops p cd bt = Inr ev"
  shows "list_all note_in_range ev"
proof -
  have r: "\<forall>x \<in> set lead_scale. 0 \<le> x \<and> x \<le> 127"
    using build_scale_Inr(2) [OF sc] oct by force
  from mm sc obtain rng' where loop:
    "for_each (melody_bar ops lead_scale cd bt) (py_range (bars p)) (rng_seed ops (seed p + 123), [])
       = Inr (rng', ev)"
    by (auto simp: make_melody_def sum_bind_def Let_def split: sum.splits)
  have "list_all note_in_range (snd (rng', ev))"
  proof (rule for_each_invariant [where I = "\<lambda>s. list_all note_in_range (snd s)", OF loop])
    show "list_all note_in_range (snd (rng_seed ops (seed p + 123), []))"
      by simp
    fix x :: int and u t :: "'a \<times> event list"
    assume "list_all note_in_range (snd u)" and "melody_bar ops lead_scale cd bt x u = Inr t"
    then show "list_all note_in_range (snd t)"
      using melody_bar_range [OF ok r] by blast
  qed
  then show ?thesis
    by simp
qed

lemma drum_step_range:
  assumes ok: "rng_ok ops" and ev: "list_all note_in_range (snd s)"
  shows "list_all note_in_range (snd (drum_step ops bs i s))"
proof -
  obtain rng dr where s: "s = (rng, dr)"
    by (cases s)
  obtain jitter r1 where ji: "randint ops (- 5) 5 rng = (jitter, r1)"
    by (cases "randint ops (- 5) 5 rng")
  have "- 5 \<le> jitter \<and> jitter \<le> 5"
    using ji ok by (rule randint_rangeD) simp
  then show ?thesis
    using ev s ji by (simp add: drum_step_def Let_def note_in_range_def)
qed

lemma make_drums_range:
  assumes ok: "rng_ok ops"
  shows "list_all note_in_range (make_drums ops p bt)"
proof -
  have bar: "list_all note_in_range (snd (drum_bar ops bt b s))"
    if "list_all note_in_range (snd s)" for b and s :: "'a \<times> event list"
    unfolding drum_bar_def Let_def
    by (rule fold_invariant [where Q = "\<lambda>x. True"]) (simp_all add: that drum_step_range [OF ok])
  show ?thesis
    unfolding make_drums_def Let_def
    by (rule fold_invariant [where Q = "\<lambda>x. True"]) (simp_all add: bar)
qed

subsection \<open>Runs without bars or without tokens\<close>

lemma scripted_ok: "rng_ok (scripted script)"
  by (auto simp: rng_ok_def scripted_def split: list.splits)

lemma py_range_nonpos: "n \<le> 0 \<Longrightarrow> py_range n = []"
  by (simp add: py_range_def)

lemma build_track_Nil: "build_track [] = Inr [0x00, 0xFF, 0x2F, 0x00]"
  using build_track_ok [of "[]"] by (simp add: msgs_ok_def)

lemma tempo_bytes:
  assumes "4 \<le> b"
  shows "\<exists>tb. sum_bind (tempo_of b) to_bytes3 = Inr tb \<and> length tb = 3 \<and> list_all is_byte tb
    \<and> tb = [60000000 div b div 65536 mod 256, 60000000 div b div 256 mod 256,
             60000000 div b mod 256]"
proof -
  have "60000000 div b \<le> 60000000 div 4"
    using assms by (intro zdiv_mono2) simp_all
  moreover have "0 \<le> 60000000 div b"
    using assms by (simp add: pos_imp_zdiv_nonneg_iff)
  ultimately have "to_bytes3 (60000000 div b)
      = Inr [60000000 div b div 65536 mod 256, 60000000 div b div 256 mod 256,
             60000000 div b mod 256]"
    by (simp add: to_bytes3_def)
  moreover have "tempo_of b = Inr (60000000 div b)"
    using assms by (simp add: tempo_of_def)
  ultimately show ?thesis
    by (simp add: is_byte_def)
qed

lemma generate_no_bars:
  assumes bpm: "4 \<le> bpm p" and key: "NOTE_TO_SEMI (key p) \<noteq> None" and bars: "bars p \<le> 0"
  shows "generate_song_bytes ops p
    = Inr (MThd @ [0, 0, 0, 6, 0, 1, 0, 4, 0x01, 0xE0]
           @ MTrk @ [0, 0, 0, 11] @ [0, 0xFF, 0x51, 0x03]
               @ [60000000 div bpm p div 65536 mod 256, 60000000 div bpm p div 256 mod 256,
                  60000000 div bpm p mod 256] @ [0, 0xFF, 0x2F, 0]
           @ MTrk @ [0, 0, 0, 4] @ [0, 0xFF, 0x2F, 0]
           @ MTrk @ [0, 0, 0, 4] @ [0, 0xFF, 0x2F, 0]
           @ MTrk @ [0, 0, 0, 4] @ [0, 0xFF, 0x2F, 0])"
proof -
  let ?t = "60000000 div bpm p"
  let ?tb = "[?t div 65536 mod 256, ?t div 256 mod 256, ?t mod 256]"
  have t: "tempo_of (bpm p) = Inr ?t"
    using bpm by (simp add: tempo_of_def)
  have tb: "to_bytes3 ?t = Inr ?tb" "list_all is_byte ?tb"
    using tempo_bytes [OF bpm] t by auto
  obtain s1 where s1: "build_scale (key p) (mode p) (chord_octave p) = Inr s1"
    using build_scale_total [OF key] by blast
  obtain s2 where s2: "build_scale (key p) (mode p) (melody_octave p) = Inr s2"
    using build_scale_total [OF key] by blast
  have ch: "make_chords ops p bt = Inr ([], [])" for bt
    using bars s1 by (simp add: make_chords_def py_range_nonpos)
  have me: "make_melody ops p cd bt = Inr []" for cd bt
    using bars s2 by (simp add: make_melody_def py_range_nonpos)
  have dr: "make_drums ops p bt = []" for bt
    using bars by (simp add: make_drums_def py_range_nonpos)
  have t0: "build_track [(0, [0xFF, 0x51, 0x03, ?t div 65536 mod 256, ?t div 256 mod 256,
        ?t mod 256])]
      = Inr [0, 0xFF, 0x51, 0x03, ?t div 65536 mod 256, ?t div 256 mod 256, ?t mod 256,
             0, 0xFF, 0x2F, 0]"
    using tb(2) build_track_ok [of "[(0, [0xFF, 0x51, 0x03] @ ?tb)]"]
    by (simp add: msgs_ok_def is_byte_def write_varlen_0)
  show ?thesis
    unfolding generate_song_bytes_def Let_def
    by (simp add: t tb(1) ch me dr t0 build_track_Nil pack_I_def pack_H_def PPQN_def chunk_def)
qed

lemma generate_no_tokens:
  assumes bpm: "4 \<le> bpm p" and key: "NOTE_TO_SEMI (key p) \<noteq> None" and bars: "0 < bars p"
    and tk: "tokens_of (progression p) = []"
  shows "generate_song_bytes ops p = Inl ZeroDivisionError"
proof -
  obtain tb where tb: "sum_bind (tempo_of (bpm p)) to_bytes3 = Inr tb"
    using tempo_bytes [OF bpm] by blast
  then obtain t where t: "tempo_of (bpm p) = Inr t" "to_bytes3 t = Inr tb"
    by (auto simp: sum_bind_def split: sum.splits)
  obtain s1 where s1: "build_scale (key p) (mode p) (chord_octave p) = Inr s1"
    using build_scale_total [OF key] by blast
  have "make_chords ops p bt = Inl ZeroDivisionError" for bt
    using make_chords_no_tokens [OF s1 tk] bars by simp
  then show ?thesis
    unfolding generate_song_bytes_def Let_def by (simp add: t)
qed

subsection \<open>Two runs with generators that behave alike\<close>

lemma randint_sim:
  assumes "rng_sim R o1 o2" "R s1 s2"
  shows "\<exists>x t1 t2. randint o1 a b s1 = (x, t1) \<and> randint o2 a b s2 = (x, t2) \<and> R t1 t2"
proof -
  let ?n = "nat (b - a + 1)"
  have "fst (rng_randbelow o1 s1 ?n) = fst (rng_randbelow o2 s2 ?n)"
    and "R (snd (rng_randbelow o1 s1 ?n)) (snd (rng_randbelow o2 s2 ?n))"
    using assms by (simp_all add: rng_sim_def)
  then show ?thesis
    by (simp add: randint_def case_prod_beta)
qed

lemma random_lt_sim:
  assumes "rng_sim R o1 o2" "R s1 s2"
  shows "\<exists>x t1 t2. random_lt_0_7 o1 s1 = (x, t1) \<and> random_lt_0_7 o2 s2 = (x, t2) \<and> R t1 t2"
proof -
  have "fst (rng_random o1 s1) = fst (rng_random o2 s2)"
    and "R (snd (rng_random o1 s1)) (snd (rng_random o2 s2))"
    using assms by (simp_all add: rng_sim_def)
  then show ?thesis
    by (simp add: random_lt_0_7_def case_prod_beta)
qed

lemma choice_sim:
  assumes "rng_sim R o1 o2" "R s1 s2"
  shows "rel_sum (=) (rel_prod (=) R) (choice o1 xs s1) (choice o2 xs s2)"
proof -
  have "fst (rng_randbelow o1 s1 (length xs)) = fst (rng_randbelow o2 s2 (length xs))"
    and "R (snd (rng_randbelow o1 s1 (length xs))) (snd (rng_randbelow o2 s2 (length xs)))"
    using assms by (simp_all add: rng_sim_def)
  then show ?thesis
    by (simp add: choice_def case_prod_beta)
qed

lemma sum_bind_sim:
  assumes "rel_sum (=) Q m1 m2"
    and "\<And>a b. Q a b \<Longrightarrow> rel_sum (=) Q' (f a) (g b)"
  shows "rel_sum (=) Q' (sum_bind m1 f) (sum_bind m2 g)"
  using assms by (cases m1; cases m2) simp_all

lemma for_each_sim:
  assumes "\<And>x s1 s2. Q s1 s2 \<Longrightarrow> rel_sum (=) Q (f x s1) (g x s2)" "Q s1 s2"
  shows "rel_sum (=) Q (for_each f xs s1) (for_each g xs s2)"
  using assms(2)
proof (induction xs arbitrary: s1 s2)
  case Nil
  then show ?case by simp
next
  case (Cons x xs)
  have "rel_sum (=) Q (f x s1) (g x s2)"
    using Cons.prems by (rule assms(1))
  then show ?case
    using Cons.IH by (cases "f x s1"; cases "g x s2") simp_all
qed

lemma fold_sim:
  assumes "\<And>x s1 s2. Q s1 s2 \<Longrightarrow> Q (f x s1) (g x s2)" "Q s1 s2"
  shows "Q (fold f xs s1) (fold g xs s2)"
  using assms(2) by (induction xs arbitrary: s1 s2) (simp_all add: assms(1))

lemma chord_note_sim:
  assumes sim: "rng_sim R o1 o2" and s: "rel_prod R (=) s1 s2"
  shows "rel_prod R (=) (chord_note o1 p st et n s1) (chord_note o2 p st et n s2)"
proof -
  obtain r1 ev where s1: "s1 = (r1, ev)"
    by (cases s1)
  with s obtain q1 where s2: "s2 = (q1, ev)" and r: "R r1 q1"
    by (cases s2) simp
  obtain x r2 q2 where a: "randint o1 0 40 r1 = (x, r2)" "randint o2 0 40 q1 = (x, q2)" "R r2 q2"
    using randint_sim [OF sim r] by blast
  obtain y r3 q3 where b: "randint o1 (- 5) 5 r2 = (y, r3)" "randint o2 (- 5) 5 q2 = (y, q3)"
    "R r3 q3"
    using randint_sim [OF sim a(3)] by blast
  show ?thesis
    by (simp add: chord_note_def s1 s2 a b)
qed

lemma chord_bar_sim:
  assumes sim: "rng_sim R o1 o2" and s: "rel_prod R (=) s1 s2"
  shows "rel_sum (=) (rel_prod R (=))
     (chord_bar o1 p bt scale tokens bar s1) (chord_bar o2 p bt scale tokens bar s2)"
proof -
  obtain r1 ev degs where s1: "s1 = (r1, ev, degs)"
    by (cases s1)
  with s obtain q1 where s2: "s2 = (q1, ev, degs)" and r: "R r1 q1"
    by (cases s2) auto
  have f3: "rel_prod R (=)
      (chord_note o1 p st et c (chord_note o1 p st et b (chord_note o1 p st et a (r1, ev))))
      (chord_note o2 p st et c (chord_note o2 p st et b (chord_note o2 p st et a (q1, ev))))"
    for st et a b c
    by (intro chord_note_sim [OF sim]) (simp add: r)
  show ?thesis
    unfolding chord_bar_def s1 s2 Let_def prod.case
  proof (intro sum_bind_sim [where Q = "(=)"])
    show "rel_sum (=) (=) (py_mod bar (int (length tokens))) (py_mod bar (int (length tokens)))"
      by (simp add: sum.rel_eq)
  qed (use f3 in \<open>simp_all add: sum.rel_eq case_prod_beta rel_prod_sel\<close>)
qed


lemma make_chords_sim:
  assumes sim: "rng_sim R o1 o2"
  shows "make_chords o1 p bt = make_chords o2 p bt"
proof (cases "build_scale (key p) (mode p) (chord_octave p)")
  case (Inl e)
  then show ?thesis
    by (simp add: make_chords_def)
next
  case (Inr scale)
  let ?tk = "tokens_of (progression p)"
  have "rel_prod R (=) (rng_seed o1 (seed p), [], []) (rng_seed o2 (seed p), [], [])"
    using sim by (simp add: rng_sim_def)
  then have "rel_sum (=) (rel_prod R (=))
      (for_each (chord_bar o1 p bt scale ?tk) (py_range (bars p)) (rng_seed o1 (seed p), [], []))
      (for_each (chord_bar o2 p bt scale ?tk) (py_range (bars p)) (rng_seed o2 (seed p), [], []))"
    by (intro for_each_sim [where Q = "rel_prod R (=)"] chord_bar_sim [OF sim])
  then show ?thesis
    unfolding make_chords_def Let_def Inr sum_bind_Inr
    by (auto simp: rel_sum.simps)
qed

lemma melody_step_sim:
  assumes sim: "rng_sim R o1 o2" and s: "rel_prod R (=) s1 s2"
  shows "rel_sum (=) (rel_prod R (=))
     (melody_step o1 scale base ct ih s1) (melody_step o2 scale base ct ih s2)"
proof -
  obtain i hit where ih: "ih = (i, hit)"
    by (cases ih)
  obtain r1 ev where s1: "s1 = (r1, ev)"
    by (cases s1)
  with s obtain q1 where s2: "s2 = (q1, ev)" and r: "R r1 q1"
    by (cases s2) simp
  show ?thesis
  proof (cases "hit = 0")
    case True
    then show ?thesis
      using r by (simp add: melody_step_def ih s1 s2)
  next
    case False
    obtain oc r2 q2 where a:
      "(if i mod 4 = 0 then (True, r1) else random_lt_0_7 o1 r1) = (oc, r2)"
      "(if i mod 4 = 0 then (True, q1) else random_lt_0_7 o2 q1) = (oc, q2)" "R r2 q2"
      using random_lt_sim [OF sim r] r by (cases "i mod 4 = 0") auto
    have c: "rel_sum (=) (rel_prod (=) R)
        (if oc then choice o1 ct r2 else choice o1 (py_range 7) r2)
        (if oc then choice o2 ct q2 else choice o2 (py_range 7) q2)"
      by (cases oc) (simp_all add: choice_sim [OF sim a(3)])
    let ?c1 = "if oc then choice o1 ct r2 else choice o1 (py_range 7) r2"
    let ?c2 = "if oc then choice o2 ct q2 else choice o2 (py_range 7) q2"
    show ?thesis
    proof (cases ?c1)
      case (Inl e)
      with c have "?c2 = Inl e"
        by (cases ?c2) simp_all
      with Inl show ?thesis
        using False by (simp add: melody_step_def ih s1 s2 a)
    next
      case (Inr dr)
      obtain deg r3 where dr: "dr = (deg, r3)"
        by (cases dr)
      with c Inr obtain q3 where c2: "?c2 = Inr (deg, q3)" and rq: "R r3 q3"
        by (cases ?c2) auto
      show ?thesis
      proof (cases "index scale deg")
        case e: (Inl e)
        show ?thesis
          using False by (simp add: melody_step_def ih s1 s2 a Inr dr c2 e)
      next
        case pt: (Inr pitch)
        obtain x r4 q4 where d1: "randint o1 (- 20) 20 r3 = (x, r4)"
          "randint o2 (- 20) 20 q3 = (x, q4)" "R r4 q4"
          using randint_sim [OF sim rq] by blast
        obtain y r5 q5 where d2: "randint o1 (- 10) 10 r4 = (y, r5)"
          "randint o2 (- 10) 10 q4 = (y, q5)" "R r5 q5"
          using randint_sim [OF sim d1(3)] by blast
        obtain z r6 q6 where d3: "randint o1 (- 50) 50 r5 = (z, r6)"
          "randint o2 (- 50) 50 q5 = (z, q6)" "R r6 q6"
          using randint_sim [OF sim d2(3)] by blast
        show ?thesis
          using False by (simp add: melody_step_def ih s1 s2 a Inr dr c2 pt d1 d2 d3 Let_def)
      qed
    qed
  qed
qed

lemma melody_bar_sim:
  assumes sim: "rng_sim R o1 o2" and s: "rel_prod R (=) s1 s2"
  shows "rel_sum (=) (rel_prod R (=))
     (melody_bar o1 scale cd bt bar s1) (melody_bar o2 scale cd bt bar s2)"
  unfolding melody_bar_def Let_def
proof (rule sum_bind_sim [where Q = "(=)"])
  show "rel_sum (=) (=) (index cd bar) (index cd bar)"
    by (simp add: sum.rel_eq)
  show "rel_sum (=) (rel_prod R (=))
      (for_each (melody_step o1 scale (bar * bt) a) (enumerate rhythm) s1)
      (for_each (melody_step o2 scale (bar * bt) b) (enumerate rhythm) s2)" if "a = b" for a b
    unfolding that
    by (intro for_each_sim [where Q = "rel_prod R (=)"] melody_step_sim [OF sim] s)
qed

lemma make_melody_sim:
  assumes sim: "rng_sim R o1 o2"
  shows "make_melody o1 p cd bt = make_melody o2 p cd bt"
proof (cases "build_scale (key p) (mode p) (melody_octave p)")
  case (Inl e)
  then show ?thesis
    by (simp add: make_melody_def)
next
  case (Inr scale)
  have "rel_prod R (=) (rng_seed o1 (seed p + 123), []) (rng_seed o2 (seed p + 123), [])"
    using sim by (simp add: rng_sim_def)
  then have "rel_sum (=) (rel_prod R (=))
      (for_each (melody_bar o1 scale cd bt) (py_range (bars p)) (rng_seed o1 (seed p + 123), []))
      (for_each (melody_bar o2 scale cd bt) (py_range (bars p)) (rng_seed o2 (seed p + 123), []))"
    by (intro for_each_sim [where Q = "rel_prod R (=)"] melody_bar_sim [OF sim])
  then show ?thesis
    unfolding make_melody_def Let_def Inr sum_bind_Inr
    by (auto simp: rel_sum.simps)
qed

lemma drum_step_sim:
  assumes sim: "rng_sim R o1 o2" and s: "rel_prod R (=) s1 s2"
  shows "rel_prod R (=) (drum_step o1 bs i s1) (drum_step o2 bs i s2)"
proof -
  obtain r1 ev where s1: "s1 = (r1, ev)"
    by (cases s1)
  with s obtain q1 where s2: "s2 = (q1, ev)" and r: "R r1 q1"
    by (cases s2) simp
  obtain x r2 q2 where a: "randint o1 (- 5) 5 r1 = (x, r2)" "randint o2 (- 5) 5 q1 = (x, q2)"
    "R r2 q2"
    using randint_sim [OF sim r] by blast
  show ?thesis
    using r by (simp add: drum_step_def s1 s2 a Let_def)
qed

lemma make_drums_sim:
  assumes sim: "rng_sim R o1 o2"
  shows "make_drums o1 p bt = make_drums o2 p bt"
proof -
  have bar: "rel_prod R (=) (drum_bar o1 bt b s1) (drum_bar o2 bt b s2)"
    if "rel_prod R (=) s1 s2" for b s1 s2
    unfolding drum_bar_def Let_def
    by (intro fold_sim [where Q = "rel_prod R (=)"] drum_step_sim [OF sim] that)
  have "rel_prod R (=) (rng_seed o1 (seed p + 999), []) (rng_seed o2 (seed p + 999), [])"
    using sim by (simp add: rng_sim_def)
  then have "rel_prod R (=)
      (fold (drum_bar o1 bt) (py_range (bars p)) (rng_seed o1 (seed p + 999), []))
      (fold (drum_bar o2 bt) (py_range (bars p)) (rng_seed o2 (seed p + 999), []))"
    by (intro fold_sim [where Q = "rel_prod R (=)"] bar)
  then show ?thesis
    by (simp add: make_drums_def rel_prod_sel)
qed

lemma scripted_replayed_sim:
  "rng_sim (\<lambda>s i. s = drop i script) (scripted script) (replayed script)"
proof -
  have d: "drop i script = script ! i # drop (Suc i) script" if "i < length script" for i
    using that by (simp add: Cons_nth_drop_Suc)
  have e: "drop i script = []" "drop (Suc i) script = []" if "\<not> i < length script" for i
    using that by simp_all
  show ?thesis
    unfolding rng_sim_def scripted_def replayed_def
    by (auto simp: d e)
qed

section \<open>The claims\<close>



text \<open>
  C2. For every non-negative \<open>v\<close>: reading the encoding of \<open>v\<close> back gives \<open>v\<close> (and
  leaves what follows it unread); the encoder of \<^verbatim>\<open>app2.py\<close> returns the same bytes;
  the encoding of \<open>0\<close> is one zero byte; and when \<open>v\<close> needs \<open>k\<close> groups of seven bits
  (\<open>128^(k-1) \<le> v < 128^k\<close>, or \<open>k = 1\<close>), the encoding has \<open>k\<close> bytes, byte \<open>i\<close> holds
  group \<open>k - 1 - i\<close> (most significant first), and the continuation bit \<open>128\<close> is set
  on every byte but the last.
\<close>

theorem write_varlen_round_trip:
  assumes "0 \<le> v"
  shows "read_varlen (write_varlen v @ rest) = Some (v, rest)
    \<and> app2_write_varlen v = Some (write_varlen v)
    \<and> write_varlen 0 = [0]
    \<and> (0 < k \<and> (k = 1 \<or> 128 ^ (k - 1) \<le> v) \<and> v < 128 ^ k \<longrightarrow>
         length (write_varlen v) = k
         \<and> (\<forall>i<k. write_varlen v ! i
               = (v div 128 ^ (k - 1 - i)) mod 128 + (if i < k - 1 then 128 else 0)))"
proof (intro conjI impI allI)
  show "read_varlen (write_varlen v @ rest) = Some (v, rest)"
    using assms by (simp add: read_write_varlen)
  show "app2_write_varlen v = Some (write_varlen v)"
    using assms by (rule app2_write_varlen_eq)
  show "write_varlen 0 = [0]"
    by (rule write_varlen_0)
next
  assume k: "0 < k \<and> (k = 1 \<or> 128 ^ (k - 1) \<le> v) \<and> v < 128 ^ k"
  then show len: "length (write_varlen v) = k"
    using assms by (intro write_varlen_length) simp_all
  fix i
  assume "i < k"
  then show "write_varlen v ! i
      = (v div 128 ^ (k - 1 - i)) mod 128 + (if i < k - 1 then 128 else 0)"
    using assms len write_varlen_nth [of v i] by simp
qed

theorem write_varlen_round_trip_witness:
  "read_varlen (write_varlen 300 @ [144, 60, 74]) = Some (300, [144, 60, 74])
   \<and> app2_write_varlen 300 = Some (write_varlen 300)
   \<and> length (write_varlen 300) = 2
   \<and> write_varlen 300 ! 0 = 2 + 128 \<and> write_varlen 300 ! 1 = 44"
proof -
  have v: "(0::int) \<le> 300"
    by simp
  note t = write_varlen_round_trip [OF v, of "[144, 60, 74]" 2]
  have k: "0 < (2::nat) \<and> ((2::nat) = 1 \<or> 128 ^ (2 - 1) \<le> (300::int)) \<and> (300::int) < 128 ^ 2"
    by simp
  from t k have len: "length (write_varlen 300) = 2"
    and nth: "\<forall>i<2. write_varlen 300 ! i
       = (300 div 128 ^ (2 - 1 - i)) mod 128 + (if i < 2 - 1 then 128 else 0)"
    by blast+
  from nth have "write_varlen 300 ! 0 = 2 + 128" and "write_varlen 300 ! 1 = 44"
    by simp_all
  with t len show ?thesis
    by blast
qed

text \<open>
  C3. The claim reads: the encoder applied to 300 returns the two bytes \<open>0xA2, 0x2C\<close>.
  The encoder returns \<open>0x82, 0x2C\<close>: \<open>300 = 2 * 128 + 44\<close>, so the first byte is
  \<open>2\<close> with the continuation bit, \<open>0x82\<close>.
\<close>

theorem write_varlen_300: "write_varlen 300 = [0x82, 0x2C]"
  by code_simp

theorem write_varlen_300_counterexample: "write_varlen 300 \<noteq> [0xA2, 0x2C]"
  by code_simp

text \<open>
  C4. The claim reads: for every track, the delta times read back and summed give
  the sorted absolute ticks of the events. It fails for an event with a negative
  tick: the encoder clamps the negative delta to zero. It holds when no tick is
  negative: for events \<open>es\<close> with byte messages and ticks \<open>\<ge> 0\<close>, \<open>build_track\<close>
  returns bytes from which the deltas read back sum to the ticks of \<open>es\<close> in
  sorted order.
\<close>

theorem build_track_deltas:
  assumes "msgs_ok es" "\<forall>e \<in> set es. 0 \<le> fst e"
  shows "\<exists>bs ds. build_track es = Inr bs
           \<and> read_deltas (map (length \<circ> snd) (sort_key fst es)) bs = Some ds
           \<and> running_sum 0 ds = sort (map fst es)"
proof -
  let ?es = "sort_key fst es"
  have "sorted (map fst ?es)" and "\<forall>e \<in> set ?es. 0 \<le> fst e"
    using assms(2) by simp_all
  then obtain ds where
    "read_deltas (map (length \<circ> snd) ?es) (track_body 0 ?es @ [0x00, 0xFF, 0x2F, 0x00]) = Some ds"
    "running_sum 0 ds = map fst ?es"
    using read_deltas_track_body by blast
  moreover have "map fst ?es = sort (map fst es)"
    by (rule map_sort_key)
  ultimately show ?thesis
    using build_track_ok [OF assms(1)] by simp
qed

theorem build_track_deltas_counterexample:
  "build_track [(- 20, [0x91, 60, 70])] = Inr [0, 0x91, 60, 70, 0, 0xFF, 0x2F, 0]
   \<and> read_deltas [3] [0, 0x91, 60, 70, 0, 0xFF, 0x2F, 0] = Some [0]
   \<and> running_sum 0 [0] \<noteq> [- 20]"
  by code_simp

theorem build_track_deltas_witness:
  "build_track [(480, [0x80, 60, 0]), (0, [0x90, 60, 74])]
     = Inr [0, 0x90, 60, 74, 0x83, 0x60, 0x80, 60, 0, 0, 0xFF, 0x2F, 0]
   \<and> read_deltas [3, 3] [0, 0x90, 60, 74, 0x83, 0x60, 0x80, 60, 0, 0, 0xFF, 0x2F, 0] = Some [0, 480]
   \<and> running_sum 0 [0, 480] = [0, 480]"
proof -
  let ?es = "[(480, [0x80, 60, 0]), (0, [0x90, 60, 74])] :: event list"
  have "msgs_ok ?es" and "\<forall>e \<in> set ?es. 0 \<le> fst e"
    by (simp_all add: msgs_ok_def is_byte_def)
  from build_track_deltas [OF this] obtain bs ds where r:
    "build_track ?es = Inr bs"
    "read_deltas (map (length \<circ> snd) (sort_key fst ?es)) bs = Some ds"
    "running_sum 0 ds = sort (map fst ?es)"
    by blast
  have b: "build_track ?es = Inr [0, 0x90, 60, 74, 0x83, 0x60, 0x80, 60, 0, 0, 0xFF, 0x2F, 0]"
    by code_simp
  have s: "sort (map fst ?es) = [0, 480]" "map (length \<circ> snd) (sort_key fst ?es) = [3, 3]"
    by simp_all
  have d: "read_deltas [3, 3] [0, 0x90, 60, 74, 0x83, 0x60, 0x80, 60, 0, 0, 0xFF, 0x2F, 0] = Some [0, 480]"
    by code_simp
  from r b s d show ?thesis
    by simp
qed

text \<open>
  C5. The claim reads: every event of every generator has a non-negative tick. The
  melody generator shifts each note by \<open>randint(-20, 20)\<close> ticks, also the note at
  tick 0 of bar 0. For the default configuration, with the first two draws of the
  melody's generator for the default seed (\<open>_randbelow(3) = 0\<close>, \<open>_randbelow(41) = 3\<close>),
  the first note-on is at tick \<open>-17\<close>; \<open>build_track\<close> then writes the delta \<open>-17\<close>
  as the byte \<open>0\<close>, and the next delta as \<open>53 - (-17) = 70\<close>.
\<close>

theorem make_melody_negative_tick:
  "(case make_chords (scripted [0, 3]) default_params 1920 of
      Inr (chord_ev, chord_degs) \<Rightarrow>
        (case make_melody (scripted [0, 3]) default_params chord_degs 1920 of
           Inr ev \<Rightarrow> take 2 ev = [(- 17, [0x91, 72, 90]), (53, [0x81, 72, 0])]
             \<and> (case build_track ev of
                    Inr bs \<Rightarrow> take 8 bs = [0, 0x91, 72, 90, 70, 0x81, 72, 0]
                  | Inl e \<Rightarrow> False)
         | Inl e \<Rightarrow> False)
    | Inl e \<Rightarrow> False)"
  by code_simp




text \<open>
  C7. The claim reads: a configuration with a non-positive bar count, an empty
  progression or an energy out of range is rejected by a validation before generation
  begins. There is no validation. With a tempo of at least 4 beats per minute and a
  known key: a bar count \<open>\<le> 0\<close> gives a complete buffer, the header, the tempo track
  and three empty tracks, whatever the progression and the energy are; a progression
  without a token, with at least one bar, ends in the ZeroDivisionError of
  \<open>bar % len(tokens)\<close> in the chord generator. Either way the result is a whole buffer
  or an exception, never a part of a buffer.
\<close>

theorem generate_without_validation:
  assumes "4 \<le> bpm p" and "NOTE_TO_SEMI (key p) \<noteq> None"
  shows "(bars p \<le> 0 \<longrightarrow> generate_song_bytes ops p
      = Inr (MThd @ [0, 0, 0, 6, 0, 1, 0, 4, 0x01, 0xE0]
           @ MTrk @ [0, 0, 0, 11] @ [0, 0xFF, 0x51, 0x03]
               @ [60000000 div bpm p div 65536 mod 256, 60000000 div bpm p div 256 mod 256,
                  60000000 div bpm p mod 256] @ [0, 0xFF, 0x2F, 0]
           @ MTrk @ [0, 0, 0, 4] @ [0, 0xFF, 0x2F, 0]
           @ MTrk @ [0, 0, 0, 4] @ [0, 0xFF, 0x2F, 0]
           @ MTrk @ [0, 0, 0, 4] @ [0, 0xFF, 0x2F, 0]))
    \<and> (0 < bars p \<and> tokens_of (progression p) = [] \<longrightarrow>
          generate_song_bytes ops p = Inl ZeroDivisionError)"
  using assms generate_no_bars [of p ops] generate_no_tokens [of p ops] by blast

theorem generate_without_validation_witness:
  "generate_song_bytes (scripted []) (default_params\<lparr>bars := - 3, energy := 7\<rparr>)
      = Inr (MThd @ [0, 0, 0, 6, 0, 1, 0, 4, 0x01, 0xE0]
           @ MTrk @ [0, 0, 0, 11] @ [0, 0xFF, 0x51, 0x03, 0x07, 0x62, 0x1E, 0, 0xFF, 0x2F, 0]
           @ MTrk @ [0, 0, 0, 4] @ [0, 0xFF, 0x2F, 0]
           @ MTrk @ [0, 0, 0, 4] @ [0, 0xFF, 0x2F, 0]
           @ MTrk @ [0, 0, 0, 4] @ [0, 0xFF, 0x2F, 0])
   \<and> generate_song_bytes (scripted []) (default_params\<lparr>progression := '' - | ''\<rparr>)
      = Inl ZeroDivisionError"
proof -
  let ?p = "default_params\<lparr>bars := - 3, energy := 7\<rparr>"
  let ?q = "default_params\<lparr>progression := '' - | ''\<rparr>"
  have p: "4 \<le> bpm ?p" "NOTE_TO_SEMI (key ?p) \<noteq> None" "bars ?p \<le> 0"
    by (simp_all add: default_params_def NOTE_TO_SEMI_def)
  have q: "4 \<le> bpm ?q" "NOTE_TO_SEMI (key ?q) \<noteq> None" "0 < bars ?q"
    by (simp_all add: default_params_def NOTE_TO_SEMI_def)
  have tk: "tokens_of (progression ?q) = []"
    by code_simp
  have b: "bpm ?p = 124"
    by (simp add: default_params_def)
  from generate_without_validation [OF p(1,2), of "scripted []"] p(3)
  have "generate_song_bytes (scripted []) ?p
      = Inr (MThd @ [0, 0, 0, 6, 0, 1, 0, 4, 0x01, 0xE0]
           @ MTrk @ [0, 0, 0, 11] @ [0, 0xFF, 0x51, 0x03, 0x07, 0x62, 0x1E, 0, 0xFF, 0x2F, 0]
           @ MTrk @ [0, 0, 0, 4] @ [0, 0xFF, 0x2F, 0]
           @ MTrk @ [0, 0, 0, 4] @ [0, 0xFF, 0x2F, 0]
           @ MTrk @ [0, 0, 0, 4] @ [0, 0xFF, 0x2F, 0])"
    unfolding b by simp
  moreover from generate_without_validation [OF q(1,2), of "scripted []"] q(3) tk
  have "generate_song_bytes (scripted []) ?q = Inl ZeroDivisionError"
    by blast
  ultimately show ?thesis
    by blast
qed

theorem generate_without_validation_counterexample:
  "(case generate_song_bytes (scripted []) (default_params\<lparr>bars := 0\<rparr>) of
      Inr bs \<Rightarrow> length bs = 69 | Inl e \<Rightarrow> False)
   \<and> (case generate_song_bytes (scripted []) (default_params\<lparr>bars := 1, energy := 2\<rparr>) of
      Inr bs \<Rightarrow> True | Inl e \<Rightarrow> False)"
  by code_simp

text \<open>
  C8. The claim reads: every roman numeral I..VII, in any mix of upper and lower
  case, maps to its index, and every other token maps to 0 without an error. The
  table holds the all-upper-case and the all-lower-case spellings only, so a mixed
  spelling such as \<open>Vi\<close> maps to 0. What holds: the function is total with values in
  \<open>[0, 6]\<close>; with \<open>name\<close> the token stripped of surrounding whitespace and of the
  two-character degree mark, an all-upper-case or all-lower-case numeral maps to its
  zero-based index, and every other \<open>name\<close> maps to 0.
\<close>

theorem roman_to_degree_cases:
  assumes "name = replace [char_of (0xC2::nat), char_of (0xB0::nat)] [] (strip tok)"
  shows "0 \<le> roman_to_degree tok \<and> roman_to_degree tok \<le> 6
    \<and> (\<forall>i<7. name = [''I'', ''II'', ''III'', ''IV'', ''V'', ''VI'', ''VII''] ! i
               \<or> name = [''i'', ''ii'', ''iii'', ''iv'', ''v'', ''vi'', ''vii''] ! i
           \<longrightarrow> roman_to_degree tok = int i)
    \<and> (name \<notin> set [''I'', ''II'', ''III'', ''IV'', ''V'', ''VI'', ''VII'',
                      ''i'', ''ii'', ''iii'', ''iv'', ''v'', ''vi'', ''vii'']
           \<longrightarrow> roman_to_degree tok = 0)"
proof -
  have r: "roman_to_degree tok = (case roman_mapping name of None \<Rightarrow> 0 | Some d \<Rightarrow> d)"
    by (simp add: roman_to_degree_def assms)
  have cases7: "i = 0 \<or> i = 1 \<or> i = 2 \<or> i = 3 \<or> i = 4 \<or> i = 5 \<or> i = 6" if "i < 7" for i :: nat
    using that by arith
  have bounds: "0 \<le> roman_to_degree tok \<and> roman_to_degree tok \<le> 6"
    unfolding r roman_mapping_def by simp
  have table: "\<forall>i<7. name = [''I'', ''II'', ''III'', ''IV'', ''V'', ''VI'', ''VII''] ! i
               \<or> name = [''i'', ''ii'', ''iii'', ''iv'', ''v'', ''vi'', ''vii''] ! i
           \<longrightarrow> roman_to_degree tok = int i"
  proof (intro allI impI)
    fix i :: nat
    assume "i < 7"
      and "name = [''I'', ''II'', ''III'', ''IV'', ''V'', ''VI'', ''VII''] ! i
         \<or> name = [''i'', ''ii'', ''iii'', ''iv'', ''v'', ''vi'', ''vii''] ! i"
    then show "roman_to_degree tok = int i"
      unfolding r roman_mapping_def using cases7 [of i] by auto
  qed
  have other: "name \<notin> set [''I'', ''II'', ''III'', ''IV'', ''V'', ''VI'', ''VII'',
                      ''i'', ''ii'', ''iii'', ''iv'', ''v'', ''vi'', ''vii'']
           \<longrightarrow> roman_to_degree tok = 0"
    unfolding r roman_mapping_def by simp
  from bounds table other show ?thesis
    by blast
qed

theorem roman_to_degree_cases_witness:
  "roman_to_degree '' vi '' = 5 \<and> roman_to_degree ''IV'' = 3 \<and> roman_to_degree ''Vi'' = 0"
proof -
  have a: "''vi'' = replace [char_of (0xC2::nat), char_of (0xB0::nat)] [] (strip '' vi '')"
    by code_simp
  have b: "''IV'' = replace [char_of (0xC2::nat), char_of (0xB0::nat)] [] (strip ''IV'')"
    by code_simp
  have c: "''Vi'' = replace [char_of (0xC2::nat), char_of (0xB0::nat)] [] (strip ''Vi'')"
    by code_simp
  from roman_to_degree_cases [OF a, THEN conjunct2, THEN conjunct2, THEN conjunct1,
      rule_format, of 5]
  have "roman_to_degree '' vi '' = 5"
    by simp
  moreover from roman_to_degree_cases [OF b, THEN conjunct2, THEN conjunct2, THEN conjunct1,
      rule_format, of 3]
  have "roman_to_degree ''IV'' = 3"
    by simp
  moreover from roman_to_degree_cases [OF c] have "roman_to_degree ''Vi'' = 0"
    by simp
  ultimately show ?thesis
    by blast
qed

theorem roman_to_degree_counterexample:
  "roman_to_degree ''Vi'' \<noteq> 5 \<and> roman_to_degree ''vI'' \<noteq> 5 \<and> roman_to_degree ''iV'' \<noteq> 3"
  by code_simp

text \<open>
  C9. Whenever the key is a known pitch name and the progression has a token, the
  chord generator returns, and for every bar \<open>b\<close> below the bar count: its record in
  \<open>chord_degs_per_bar\<close> is the triad of the token at index \<open>b mod length tokens\<close>
  (\<open>spec_triad\<close>), and the six events of the bar (positions \<open>6 b\<close> to \<open>6 b + 5\<close>) are a
  note-on and a note-off for each pitch of the open voicing, in the order root,
  fifth, third raised by an octave (\<open>spec_voicing\<close>). For \<open>I-V-vi-IV\<close>, bar 4 resolves
  to the token \<open>I\<close>, with triad \<open>0, 2, 4\<close>.
\<close>

theorem make_chords_bars:
  assumes "build_scale (key p) (mode p) (chord_octave p) = Inr scale"
    and "tokens = tokens_of (progression p)"
    and "tokens \<noteq> []"
    and "b < nat (bars p)"
  shows "\<exists>ev degs. make_chords ops p bt = Inr (ev, degs)
      \<and> degs ! b = spec_triad tokens b
      \<and> map (\<lambda>e. (snd e ! 0, snd e ! 1)) (take 6 (drop (6 * b) ev))
          = note_pairs (spec_voicing scale (spec_triad tokens b))
      \<and> tokens_of ''I-V-vi-IV'' ! (4 mod length (tokens_of ''I-V-vi-IV'')) = ''I''
      \<and> spec_triad (tokens_of ''I-V-vi-IV'') 4 = [0, 2, 4]"
proof -
  have "tokens_of ''I-V-vi-IV'' ! (4 mod length (tokens_of ''I-V-vi-IV'')) = ''I''"
    by code_simp
  moreover have "spec_triad (tokens_of ''I-V-vi-IV'') 4 = [0, 2, 4]"
    by code_simp
  ultimately show ?thesis
    using make_chords_char [of p scale ops bt] assms by blast
qed

theorem make_chords_bars_witness:
  "\<exists>ev degs. make_chords (scripted [0, 3]) default_params 1920 = Inr (ev, degs)
      \<and> degs ! 4 = [0, 2, 4]
      \<and> map (\<lambda>e. (snd e ! 0, snd e ! 1)) (take 6 (drop 24 ev))
          = [(0x90, 48), (0x80, 48), (0x90, 55), (0x80, 55), (0x90, 64), (0x80, 64)]"
proof -
  have sc: "build_scale (key default_params) (mode default_params) (chord_octave default_params)
      = Inr [48, 50, 52, 53, 55, 57, 59]"
    by code_simp
  have tk: "[''I'', ''V'', ''vi'', ''IV''] = tokens_of (progression default_params)"
    by code_simp
  have ne: "[''I'', ''V'', ''vi'', ''IV''] \<noteq> ([] :: string list)"
    by simp
  have b: "4 < nat (bars default_params)"
    by (simp add: default_params_def)
  have tr: "spec_triad [''I'', ''V'', ''vi'', ''IV''] 4 = [0, 2, 4]"
    by code_simp
  have vo: "note_pairs (spec_voicing [48, 50, 52, 53, 55, 57, 59] [0, 2, 4])
      = [(0x90, 48), (0x80, 48), (0x90, 55), (0x80, 55), (0x90, 64), (0x80, 64)]"
    by code_simp
  from make_chords_bars [OF sc tk ne b, of "scripted [0, 3]" 1920]
  obtain ev degs where "make_chords (scripted [0, 3]) default_params 1920 = Inr (ev, degs)"
    and "degs ! 4 = spec_triad [''I'', ''V'', ''vi'', ''IV''] 4"
    and "map (\<lambda>e. (snd e ! 0, snd e ! 1)) (take 6 (drop (6 * 4) ev))
      = note_pairs (spec_voicing [48, 50, 52, 53, 55, 57, 59]
          (spec_triad [''I'', ''V'', ''vi'', ''IV''] 4))"
    by blast
  then show ?thesis
    unfolding tr vo by simp
qed

text \<open>
  C10. The encoder of \<^verbatim>\<open>song_generator.py\<close> is a total function (its loop is
  defined with a termination proof), and on every integer \<open>v\<close> it returns the encoding
  of \<open>max 0 v\<close>: read back, the bytes give \<open>max 0 v\<close>. A negative value is encoded
  as the one byte \<open>0x00\<close>; the loop body of \<open>build_track\<close> writes an event whose
  tick is below the last tick with the delta byte \<open>0x00\<close>, raising nothing, and so
  does \<open>build_track\<close> for an event with a negative tick.
\<close>

theorem write_varlen_total:
  "write_varlen v = write_varlen (max 0 v)
   \<and> read_varlen (write_varlen v @ rest) = Some (max 0 v, rest)
   \<and> (v < 0 \<longrightarrow> write_varlen v = [0x00])
   \<and> (tick < t0 \<and> list_all is_byte msg \<longrightarrow>
        track_step (tick, msg) (t0, data) = Inr (tick, data @ [0x00] @ msg))
   \<and> (tick < 0 \<and> list_all is_byte msg \<longrightarrow>
        build_track [(tick, msg)] = Inr ([0x00] @ msg @ [0x00, 0xFF, 0x2F, 0x00]))"
proof (intro conjI impI)
  show "write_varlen v = write_varlen (max 0 v)"
    by (simp add: write_varlen_eq)
  show "read_varlen (write_varlen v @ rest) = Some (max 0 v, rest)"
    by (rule read_write_varlen)
  show "write_varlen v = [0x00]" if "v < 0"
    using that by (rule write_varlen_neg)
  show "track_step (tick, msg) (t0, data) = Inr (tick, data @ [0x00] @ msg)"
    if "tick < t0 \<and> list_all is_byte msg"
    using that by (simp add: track_step_ok write_varlen_neg)
  show "build_track [(tick, msg)] = Inr ([0x00] @ msg @ [0x00, 0xFF, 0x2F, 0x00])"
    if "tick < 0 \<and> list_all is_byte msg"
    using that by (simp add: build_track_ok msgs_ok_def write_varlen_neg)
qed

theorem write_varlen_total_witness:
  "write_varlen (- 17) = [0]
   \<and> read_varlen (write_varlen (- 17) @ [145, 72, 90]) = Some (0, [145, 72, 90])
   \<and> track_step (- 17, [145, 72, 90]) (0, []) = Inr (- 17, [0, 145, 72, 90])
   \<and> build_track [(- 17, [145, 72, 90])] = Inr [0, 145, 72, 90, 0, 255, 47, 0]"
proof -
  note t = write_varlen_total [where v = "- 17" and rest = "[145, 72, 90]" and tick = "- 17"
      and msg = "[145, 72, 90]" and ?t0.0 = 0 and data = "[]"]
  have neg: "(- 17 :: int) < 0"
    by simp
  have msg: "list_all is_byte [145, 72, 90]"
    by (simp add: is_byte_def)
  have m: "max 0 (- 17 :: int) = 0"
    by simp
  from t neg have "write_varlen (- 17) = [0]"
    by blast
  moreover from t have "read_varlen (write_varlen (- 17) @ [145, 72, 90]) = Some (0, [145, 72, 90])"
    unfolding m by blast
  moreover from t neg msg
  have "track_step (- 17, [145, 72, 90]) (0, []) = Inr (- 17, [] @ [0] @ [145, 72, 90])"
    by blast
  moreover from t neg msg
  have "build_track [(- 17, [145, 72, 90])] = Inr ([0] @ [145, 72, 90] @ [0, 255, 47, 0])"
    by blast
  ultimately show ?thesis
    by simp
qed

end
